theory Spec2Isabelle
  imports Main "HOL-Library.Signed_Division"
begin

section \<open>The HexGame engine of simhex\<close>

text \<open>
  The class \<open>HexGame\<close> (identical in both driver programs) is embedded function by
  function.  A C++ \<open>int\<close> is modelled as \<open>int\<close>: every value the engine computes is
  bounded by \<open>2 * (BOARD_DIM + 2)\<^sup>2\<close>, the size of the vectors it allocates, so no
  arithmetic wraps on a board that fits in memory.  \<open>std::vector<int>\<close> is an
  \<open>int list\<close>.  Where C++ leaves the behaviour undefined (an index outside a vector,
  \<open>back()\<close> of an empty vector, division or remainder by zero) the model stops with
  a value of type \<open>error\<close> that names the undefined operation; the source has no
  exception, no assertion and no other error path of its own.
\<close>

subsection \<open>Undefined behaviour as an explicit outcome\<close>

datatype error = OutOfBounds | DivisionByZero | BackOfEmpty

type_synonym 'a result = "error + 'a"

definition ebind :: "'a result \<Rightarrow> ('a \<Rightarrow> 'b result) \<Rightarrow> 'b result" where
  "ebind m f = (case m of Inl e \<Rightarrow> Inl e | Inr x \<Rightarrow> f x)"

text \<open>\<open>v[i]\<close> read and \<open>v[i] = x\<close> write of a \<open>std::vector<int>\<close>.\<close>

definition at :: "int list \<Rightarrow> int \<Rightarrow> int result" where
  "at v i = (if 0 \<le> i \<and> i < int (length v) then Inr (v ! nat i) else Inl OutOfBounds)"

definition put :: "int list \<Rightarrow> int \<Rightarrow> int \<Rightarrow> (int list) result" where
  "put v i x = (if 0 \<le> i \<and> i < int (length v) then Inr (v[nat i := x]) else Inl OutOfBounds)"

text \<open>C++ \<open>/\<close> and \<open>%\<close> on \<open>int\<close>: truncation towards zero, undefined for a zero divisor.\<close>

definition c_div :: "int \<Rightarrow> int \<Rightarrow> int result" where
  "c_div a b = (if b = 0 then Inl DivisionByZero else Inr (a sdiv b))"

definition c_mod :: "int \<Rightarrow> int \<Rightarrow> int result" where
  "c_mod a b = (if b = 0 then Inl DivisionByZero else Inr (a smod b))"

text \<open>A \<open>for\<close> loop without early exit, over the values of its counter.\<close>

fun for_each :: "'a list \<Rightarrow> ('a \<Rightarrow> 's \<Rightarrow> 's result) \<Rightarrow> 's \<Rightarrow> 's result" where
  "for_each [] body s = Inr s"
| "for_each (i # is) body s = ebind (body i s) (for_each is body)"

subsection \<open>The object\<close>

record hexgame =
  BOARD_DIM :: int
  board :: "int list"
  open_positions :: "int list"
  number_of_open_positions :: int
  moves :: "int list"
  connected :: "int list"
  neighbors :: "int list"

subsection \<open>\<open>init\<close> and the constructor\<close>

text \<open>The body of the inner loop of \<open>init\<close>, for row \<open>i\<close> and column \<open>j\<close> of the padded grid.\<close>

definition init_cell :: "int \<Rightarrow> int \<Rightarrow> hexgame \<Rightarrow> hexgame result" where
  "init_cell i j s =
     (let n = BOARD_DIM s; c = i * (n + 2) + j in
      ebind (put (board s) (c * 2) 0) (\<lambda>b1.
      ebind (put b1 (c * 2 + 1) 0) (\<lambda>b2.
      ebind (if 0 < i \<and> i < n + 1 \<and> 0 < j \<and> j < n + 1
             then put (open_positions s) ((i - 1) * n + j - 1) c
             else Inr (open_positions s)) (\<lambda>op.
      ebind (put (connected s) (c * 2) (if i = 0 then 1 else 0)) (\<lambda>c1.
      ebind (put c1 (c * 2 + 1) (if j = 0 then 1 else 0)) (\<lambda>c2.
      Inr (s\<lparr>board := b2, open_positions := op, connected := c2\<rparr>)))))))"

definition init :: "hexgame \<Rightarrow> hexgame result" where
  "init s =
     (let n = BOARD_DIM s in
      ebind (for_each [0 ..< nat (n + 2)] (\<lambda>i.
               for_each [0 ..< nat (n + 2)] (\<lambda>j. init_cell (int i) (int j))) s) (\<lambda>s1.
      Inr (s1\<lparr>number_of_open_positions := n * n, moves := []\<rparr>)))"

text \<open>
  The constructor: \<open>resize\<close> value-initialises the vectors with zeros, \<open>moves\<close> is
  resized and then cleared again by \<open>init\<close>.
\<close>

definition HexGame :: "int \<Rightarrow> hexgame result" where
  "HexGame dim =
     init \<lparr>BOARD_DIM = dim,
           board = replicate (nat ((dim + 2) * (dim + 2) * 2)) 0,
           open_positions = replicate (nat (dim * dim)) 0,
           number_of_open_positions = 0,
           moves = replicate (nat (dim * dim)) 0,
           connected = replicate (nat ((dim + 2) * (dim + 2) * 2)) 0,
           neighbors = [- (dim + 2) + 1, - (dim + 2), - 1, 1, dim + 2, (dim + 2) - 1]\<rparr>"

subsection \<open>\<open>connect\<close> and \<open>winner\<close>\<close>

lemma ebind_cong [fundef_cong]:
  "m = m' \<Longrightarrow> (\<And>x. m' = Inr x \<Longrightarrow> f x = f' x) \<Longrightarrow> ebind m f = ebind m' f'"
  by (simp add: ebind_def split: sum.splits)

text \<open>
  \<open>connect\<close> is the recursive flood fill; \<open>connect_loop\<close> is its \<open>for\<close> loop over the six
  neighbours, given the counter values still to run.  The conjunctions of the source
  are short-circuit: the division is evaluated only for the player it concerns, the
  connectivity mark of a neighbour is read only when the neighbour is occupied.
\<close>

definition on_last_row :: "int \<Rightarrow> int \<Rightarrow> hexgame \<Rightarrow> bool result" where
  \<comment> \<open>\<open>player == 0 && position / (BOARD_DIM + 2) == BOARD_DIM\<close>\<close>
  "on_last_row player position s =
     (if player = 0
      then ebind (c_div position (BOARD_DIM s + 2)) (\<lambda>q. Inr (q = BOARD_DIM s))
      else Inr False)"

definition on_last_column :: "int \<Rightarrow> int \<Rightarrow> hexgame \<Rightarrow> bool result" where
  \<comment> \<open>\<open>player == 1 && position % (BOARD_DIM + 2) == BOARD_DIM\<close>\<close>
  "on_last_column player position s =
     (if player = 1
      then ebind (c_mod position (BOARD_DIM s + 2)) (\<lambda>r. Inr (r = BOARD_DIM s))
      else Inr False)"

function connect :: "int \<Rightarrow> int \<Rightarrow> hexgame \<Rightarrow> (int \<times> hexgame) result"
  and connect_loop :: "int \<Rightarrow> int \<Rightarrow> int list \<Rightarrow> hexgame \<Rightarrow> (int \<times> hexgame) result"
where
  "connect player position s =
     ebind (put (connected s) (position * 2 + player) 1) (\<lambda>c.
     let s1 = s\<lparr>connected := c\<rparr> in
     ebind (on_last_row player position s1) (\<lambda>goal0.
     if goal0 then Inr (1, s1)
     else
     ebind (on_last_column player position s1) (\<lambda>goal1.
     if goal1 then Inr (1, s1)
     else connect_loop player position [0, 1, 2, 3, 4, 5] s1)))"
| "connect_loop player position [] s = Inr (0, s)"
| "connect_loop player position (i # is) s =
     ebind (at (neighbors s) i) (\<lambda>d.
     let neighbor = position + d in
     ebind (at (board s) (neighbor * 2 + player)) (\<lambda>b.
     if b \<noteq> 0
     then ebind (at (connected s) (neighbor * 2 + player)) (\<lambda>m.
          if m = 0
          then ebind (connect player neighbor s) (\<lambda>(r, s').
               if r \<noteq> 0 then Inr (1, s') else connect_loop player position is s')
          else connect_loop player position is s)
     else connect_loop player position is s))"
  by pat_completeness auto

text \<open>
  Termination: every recursive call of \<open>connect\<close> is on a neighbour whose mark is
  still zero and sets it, so the number of zero marks decreases.  The recursion is
  nested (the loop continues in the state the recursive call returns), so that a
  call never adds a zero mark is shown first, on the domain of the function.
\<close>

definition unmarked :: "int list \<Rightarrow> nat" where
  "unmarked c = length (filter (\<lambda>x. x = 0) c)"

lemma unmarked_update_less: "k < length c \<Longrightarrow> c ! k = 0 \<Longrightarrow> unmarked (c[k := 1]) < unmarked c"
proof (induction c arbitrary: k)
  case Nil then show ?case by simp
next
  case (Cons a c)
  then show ?case by (cases k) (auto simp: unmarked_def)
qed

lemma unmarked_update_le: "unmarked (c[k := 1]) \<le> unmarked c"
proof (induction c arbitrary: k)
  case Nil then show ?case by simp
next
  case (Cons a c)
  show ?case
  proof (cases k)
    case 0 then show ?thesis by (simp add: unmarked_def)
  next
    case (Suc j)
    with Cons.IH [of j] show ?thesis by (simp add: unmarked_def)
  qed
qed

lemma connect_unmarked_partial:
  "connect_connect_loop_dom (Inl (p, pos, s)) \<Longrightarrow> connect p pos s = Inr (r, s') \<Longrightarrow>
     unmarked (connected s') \<le> unmarked ((connected s)[nat (pos * 2 + p) := 1])"
  "connect_connect_loop_dom (Inr (p, pos, is, s)) \<Longrightarrow> connect_loop p pos is s = Inr (r, s') \<Longrightarrow>
     unmarked (connected s') \<le> unmarked (connected s)"
proof (induction p pos s and p pos "is" s arbitrary: r s' and r s' rule: connect_connect_loop.pinduct)
  case (1 player position s)
  then show ?case
    apply (simp add: connect.psimps)
    apply (auto simp: ebind_def put_def Let_def split: sum.splits if_splits)
    done
next
  case (2 player position s)
  then show ?case by (simp add: connect_loop.psimps)
next
  case (3 player position i "is" s)
  from 3(1) 3(6) obtain d b where d: "at (neighbors s) i = Inr d"
    and b: "at (board s) ((position + d) * 2 + player) = Inr b"
    by (auto simp: connect_loop.psimps ebind_def Let_def split: sum.splits)
  let ?nb = "position + d"
  show ?case
  proof (cases "b \<noteq> 0")
    case False
    with 3(1) 3(6) d b have "connect_loop player position is s = Inr (r, s')"
      by (simp add: connect_loop.psimps ebind_def)
    with 3(5) [OF d refl b] False show ?thesis by simp
  next
    case True
    with 3(1) 3(6) d b obtain m where m: "at (connected s) (?nb * 2 + player) = Inr m"
      by (auto simp: connect_loop.psimps ebind_def Let_def split: sum.splits)
    show ?thesis
    proof (cases "m = 0")
      case False
      with 3(1) 3(6) d b m True have "connect_loop player position is s = Inr (r, s')"
        by (simp add: connect_loop.psimps ebind_def)
      with 3(4) [OF d refl b True m False] show ?thesis by simp
    next
      case m0: True
      with 3(1) 3(6) d b m True obtain r1 s1 where c: "connect player ?nb s = Inr (r1, s1)"
        by (auto simp: connect_loop.psimps ebind_def Let_def split: sum.splits)
      from 3(2) [OF d refl b True m m0 c]
      have le1: "unmarked (connected s1) \<le> unmarked ((connected s)[nat (?nb * 2 + player) := 1])" .
      also have "\<dots> \<le> unmarked (connected s)" by (rule unmarked_update_le)
      finally have le: "unmarked (connected s1) \<le> unmarked (connected s)" .
      show ?thesis
      proof (cases "r1 \<noteq> 0")
        case True
        with 3(1) 3(6) d b m \<open>b \<noteq> 0\<close> m0 c have "s' = s1"
          by (simp add: connect_loop.psimps ebind_def)
        with le show ?thesis by simp
      next
        case False
        with 3(1) 3(6) d b m \<open>b \<noteq> 0\<close> m0 c have "connect_loop player position is s1 = Inr (r, s')"
          by (simp add: connect_loop.psimps ebind_def)
        from 3(3) [OF d refl b \<open>b \<noteq> 0\<close> m m0 c refl False this] le show ?thesis by simp
      qed
    qed
  qed
qed

termination connect
proof (relation "inv_image (less_than <*lex*> less_than)
    (\<lambda>x. case x of
       Inl (p, pos, s) \<Rightarrow> (unmarked ((connected s)[nat (pos * 2 + p) := 1]), 7)
     | Inr (p, pos, is, s) \<Rightarrow> (unmarked (connected s), length is))", goal_cases)
  case 1 show ?case by (intro wf_inv_image wf_lex_prod wf_less_than)
next
  case (2 player position s c s1 g0 g1)
  then show ?case by (auto simp: put_def split: if_splits)
next
  case (3 player position i "is" s d nb b m)
  from 3(5,6) have "nat (nb * 2 + player) < length (connected s)"
    and "connected s ! nat (nb * 2 + player) = 0"
    by (auto simp: at_def split: if_splits)
  then have "unmarked ((connected s)[nat (nb * 2 + player) := 1]) < unmarked (connected s)"
    by (rule unmarked_update_less)
  then show ?case by simp
next
  case (4 player position i "is" s d nb b m x r s1)
  then have "unmarked (connected s1) \<le> unmarked ((connected s)[nat (nb * 2 + player) := 1])"
    using connect_unmarked_partial(1) [of player nb s r s1] by auto
  also have "\<dots> \<le> unmarked (connected s)" by (rule unmarked_update_le)
  finally show ?case by auto
next
  case 5 then show ?case by simp
next
  case 6 then show ?case by simp
qed


text \<open>\<open>winner\<close>: the loop over the six neighbours returns from inside at the first marked one.\<close>

fun winner_loop :: "int \<Rightarrow> int \<Rightarrow> int list \<Rightarrow> hexgame \<Rightarrow> (int \<times> hexgame) result" where
  "winner_loop player position [] s = Inr (0, s)"
| "winner_loop player position (i # is) s =
     ebind (at (neighbors s) i) (\<lambda>d.
     let neighbor = position + d in
     ebind (at (connected s) (neighbor * 2 + player)) (\<lambda>m.
     if m \<noteq> 0 then connect player position s
     else winner_loop player position is s))"

definition winner :: "int \<Rightarrow> int \<Rightarrow> hexgame \<Rightarrow> (int \<times> hexgame) result" where
  "winner player position s = winner_loop player position [0, 1, 2, 3, 4, 5] s"

subsection \<open>\<open>place_piece_randomly\<close>, \<open>full_board\<close>, \<open>remove_last_n_moves\<close>\<close>

text \<open>
  The value \<open>rand()\<close> returns is the parameter \<open>rand\<close> (the C library gives a value
  from 0 to \<open>RAND_MAX\<close>).  The function returns the padded index \<open>empty_position\<close>.
\<close>

definition place_piece_randomly :: "int \<Rightarrow> int \<Rightarrow> hexgame \<Rightarrow> (int \<times> hexgame) result" where
  "place_piece_randomly rand player s =
     ebind (c_mod rand (number_of_open_positions s)) (\<lambda>random_empty_position_index.
     ebind (at (open_positions s) random_empty_position_index) (\<lambda>empty_position.
     ebind (put (board s) (empty_position * 2 + player) 1) (\<lambda>b.
     ebind (c_div empty_position (BOARD_DIM s + 2)) (\<lambda>q.
     ebind (c_mod empty_position (BOARD_DIM s + 2)) (\<lambda>r.
     let logical_row = q - 1;
         logical_col = r - 1;
         logical_position = logical_row * BOARD_DIM s + logical_col in
     ebind (at (open_positions s) (number_of_open_positions s - 1)) (\<lambda>last_open.
     ebind (put (open_positions s) random_empty_position_index last_open) (\<lambda>op.
     Inr (empty_position,
          s\<lparr>board := b,
            moves := moves s @ [logical_position],
            open_positions := op,
            number_of_open_positions := number_of_open_positions s - 1\<rparr>))))))))"

definition full_board :: "hexgame \<Rightarrow> bool" where
  "full_board s \<longleftrightarrow> number_of_open_positions s = 0"

text \<open>One iteration of the loop of \<open>remove_last_n_moves\<close>, on the pair of \<open>removed_moves\<close> and the object.\<close>

fun remove_step :: "int list \<times> hexgame \<Rightarrow> (int list \<times> hexgame) result" where
  "remove_step (removed_moves, s) =
     (if moves s = [] then Inl BackOfEmpty
      else
        let last_move_position = last (moves s) in
        ebind (c_div last_move_position (BOARD_DIM s)) (\<lambda>logical_row.
        ebind (c_mod last_move_position (BOARD_DIM s)) (\<lambda>logical_col.
        let expanded_index = (logical_row + 1) * (BOARD_DIM s + 2) + (logical_col + 1) in
        ebind (put (board s) (expanded_index * 2) 0) (\<lambda>b1.
        ebind (put b1 (expanded_index * 2 + 1) 0) (\<lambda>b2.
        Inr (removed_moves @ [last_move_position],
             s\<lparr>moves := butlast (moves s), board := b2\<rparr>))))))"

definition remove_last_n_moves :: "int \<Rightarrow> hexgame \<Rightarrow> (int list \<times> hexgame) result" where
  "remove_last_n_moves n s = for_each [0 ..< nat n] (\<lambda>i. remove_step) ([], s)"

subsection \<open>\<open>board_to_coord\<close>\<close>

definition coord_cell :: "hexgame \<Rightarrow> int \<Rightarrow> int \<Rightarrow> int list \<Rightarrow> (int list) result" where
  "coord_cell s i j coord_values =
     ebind (at (board s) (((i + 1) * (BOARD_DIM s + 2) + j + 1) * 2)) (\<lambda>cell_x.
     ebind (at (board s) (((i + 1) * (BOARD_DIM s + 2) + j + 1) * 2 + 1)) (\<lambda>cell_o.
     let cell_value = (if cell_x = 1 then 1 else (if cell_o = 1 then - 1 else 0)) in
     Inr (coord_values @ [cell_value])))"

definition board_to_coord :: "hexgame \<Rightarrow> (int list) result" where
  "board_to_coord s =
     for_each [0 ..< nat (BOARD_DIM s)] (\<lambda>i.
       for_each [0 ..< nat (BOARD_DIM s)] (\<lambda>j. coord_cell s (int i) (int j))) []"

section \<open>Notions used to state the properties\<close>

subsection \<open>Padded and logical indices\<close>

text \<open>
  \<open>logical_of\<close> is the conversion \<open>place_piece_randomly\<close> applies to a padded index,
  \<open>padded_of\<close> the conversion \<open>remove_last_n_moves\<close> applies to a logical index;
  \<open>playable\<close> holds for the padded indices inside the one-cell border.
\<close>

definition padded_of :: "int \<Rightarrow> int \<Rightarrow> int" where
  "padded_of n m = (m div n + 1) * (n + 2) + (m mod n + 1)"

definition logical_of :: "int \<Rightarrow> int \<Rightarrow> int" where
  "logical_of n c = (c div (n + 2) - 1) * n + (c mod (n + 2) - 1)"

definition playable :: "int \<Rightarrow> int \<Rightarrow> bool" where
  "playable n c \<longleftrightarrow> 1 \<le> c div (n + 2) \<and> c div (n + 2) \<le> n \<and> 1 \<le> c mod (n + 2) \<and> c mod (n + 2) \<le> n"

subsection \<open>The state \<open>init\<close> leaves\<close>

definition fresh_connected :: "int \<Rightarrow> int list" where
  "fresh_connected n =
     map (\<lambda>k. if even k then (if int k div 2 < n + 2 then 1 else 0)
               else (if (int k div 2) mod (n + 2) = 0 then 1 else 0))
       [0 ..< nat (2 * (n + 2) * (n + 2))]"

definition fresh :: "hexgame \<Rightarrow> hexgame" where
  "fresh s =
     (let n = BOARD_DIM s in
      s\<lparr>board := replicate (nat (2 * (n + 2) * (n + 2))) 0,
        open_positions := map (\<lambda>q. padded_of n (int q)) [0 ..< nat (n * n)],
        connected := fresh_connected n,
        number_of_open_positions := n * n,
        moves := []\<rparr>)"

subsection \<open>Well-formed objects\<close>

text \<open>
  \<open>sized\<close>: the vectors have the sizes the constructor gives them.  \<open>valid\<close>: in
  addition the live prefix of \<open>open_positions\<close> holds distinct playable cells that are
  not in the history, the history holds distinct logical indices, and a cell carries
  a stone (of one player only) exactly when its logical index is in the history.
\<close>

definition sized :: "hexgame \<Rightarrow> bool" where
  "sized s \<longleftrightarrow>
     (let n = BOARD_DIM s in
      0 \<le> n \<and>
      int (length (board s)) = 2 * (n + 2) * (n + 2) \<and>
      int (length (connected s)) = 2 * (n + 2) * (n + 2) \<and>
      int (length (open_positions s)) = n * n \<and>
      neighbors s = [- (n + 2) + 1, - (n + 2), - 1, 1, n + 2, (n + 2) - 1])"


definition valid :: "hexgame \<Rightarrow> bool" where
  "valid s \<longleftrightarrow> sized s \<and> 1 \<le> BOARD_DIM s \<and>
     (let n = BOARD_DIM s;
          k = number_of_open_positions s;
          live = take (nat k) (open_positions s) in
      0 \<le> k \<and> k \<le> n * n \<and> distinct live \<and>
      (\<forall>c \<in> set live. playable n c \<and> logical_of n c \<notin> set (moves s)) \<and>
      distinct (moves s) \<and>
      (\<forall>m \<in> set (moves s). 0 \<le> m \<and> m < n * n) \<and>
      (\<forall>x \<in> set (board s). x = 0 \<or> x = 1) \<and>
      (\<forall>c \<in> set [0 .. (n + 2) * (n + 2) - 1].
          \<not> (board s ! nat (c * 2) = 1 \<and> board s ! nat (c * 2 + 1) = 1) \<and>
          ((board s ! nat (c * 2) = 1 \<or> board s ! nat (c * 2 + 1) = 1)
             \<longleftrightarrow> playable n c \<and> logical_of n c \<in> set (moves s))))"


subsection \<open>The effect of \<open>remove_last_n_moves\<close> on the board\<close>

text \<open>Both flags of the cells of the given logical indices are set to zero, in the given order.\<close>

definition clear_cells :: "int \<Rightarrow> int list \<Rightarrow> int list \<Rightarrow> int list" where
  "clear_cells n ms b =
     fold (\<lambda>m b. b[nat (padded_of n m * 2) := 0, nat (padded_of n m * 2 + 1) := 0]) ms b"


subsection \<open>What a flood fill may change\<close>

text \<open>
  \<open>only_marks player s s'\<close>: the two objects differ at most in connectivity marks of
  \<open>player\<close> (entries \<open>2 * cell + player\<close> of \<open>connected\<close>), and each changed mark is
  now 1.
\<close>

definition only_marks :: "int \<Rightarrow> hexgame \<Rightarrow> hexgame \<Rightarrow> bool" where
  "only_marks player s s' \<longleftrightarrow>
     s' = s\<lparr>connected := connected s'\<rparr> \<and>
     length (connected s') = length (connected s) \<and>
     (\<forall>i < length (connected s).
        connected s' ! i = connected s ! i \<or>
        (connected s' ! i = 1 \<and> (\<exists>c. int i = c * 2 + player)))"


subsection \<open>Reachable objects\<close>

text \<open>
  \<open>reachable s u\<close>: the object \<open>s\<close> results from constructing a \<open>HexGame\<close> of a
  positive dimension and then calling \<open>init\<close>, \<open>place_piece_randomly\<close> (for player 0 or
  1, with any value of \<open>rand()\<close>), \<open>winner\<close> and \<open>remove_last_n_moves\<close> in any order,
  each call having defined behaviour; \<open>u\<close> counts the moves that \<open>remove_last_n_moves\<close>
  has removed since the last \<open>init\<close>.
\<close>

inductive reachable :: "hexgame \<Rightarrow> nat \<Rightarrow> bool" where
  constructed: "1 \<le> dim \<Longrightarrow> HexGame dim = Inr s \<Longrightarrow> reachable s 0"
| reinit: "reachable s u \<Longrightarrow> init s = Inr s' \<Longrightarrow> reachable s' 0"
| placed: "reachable s u \<Longrightarrow> player = 0 \<or> player = 1 \<Longrightarrow> 0 \<le> rand \<Longrightarrow>
     place_piece_randomly rand player s = Inr (pos, s') \<Longrightarrow> reachable s' u"
| checked: "reachable s u \<Longrightarrow> player = 0 \<or> player = 1 \<Longrightarrow>
     winner player position s = Inr (r, s') \<Longrightarrow> reachable s' u"
| undone: "reachable s u \<Longrightarrow> remove_last_n_moves n s = Inr (removed, s') \<Longrightarrow>
     reachable s' (u + length removed)"


subsection \<open>The calls of one game, and the win condition\<close>

text \<open>
  \<open>game_step\<close>: one call of \<open>place_piece_randomly\<close>, \<open>winner\<close> or \<open>remove_last_n_moves\<close>
  with defined behaviour (no \<open>init\<close>: a game runs from one \<open>init\<close> to the next).
  \<open>won player s\<close>: a cell on the player's goal edge, as \<open>connect\<close> tests it (row \<open>N\<close>
  for player 0, column \<open>N\<close> for player 1), carries a true connectivity mark of that
  player; this is the condition under which \<open>connect\<close>, and so \<open>winner\<close>, returns 1.
\<close>

inductive game_step :: "hexgame \<Rightarrow> hexgame \<Rightarrow> bool" where
  place: "player = 0 \<or> player = 1 \<Longrightarrow> 0 \<le> rand \<Longrightarrow>
     place_piece_randomly rand player s = Inr (pos, s') \<Longrightarrow> game_step s s'"
| check: "player = 0 \<or> player = 1 \<Longrightarrow>
     winner player position s = Inr (r, s') \<Longrightarrow> game_step s s'"
| undo: "remove_last_n_moves n s = Inr (removed, s') \<Longrightarrow> game_step s s'"

definition won :: "int \<Rightarrow> hexgame \<Rightarrow> bool" where
  "won player s \<longleftrightarrow>
     (\<exists>position \<in> set [0 .. (BOARD_DIM s + 2) * (BOARD_DIM s + 2) - 1].
        (player = 0 \<and> position div (BOARD_DIM s + 2) = BOARD_DIM s \<or>
         player = 1 \<and> position mod (BOARD_DIM s + 2) = BOARD_DIM s) \<and>
        connected s ! nat (position * 2 + player) \<noteq> 0)"


subsection \<open>The value of a cell in the exported vector\<close>

text \<open>
  The value \<open>board_to_coord\<close> gives the padded cell \<open>c\<close>: 1 when the flag of player 0
  (X) is set, otherwise \<open>- 1\<close> when the flag of player 1 (O) is set, otherwise 0.
\<close>

definition cell_value :: "hexgame \<Rightarrow> int \<Rightarrow> int" where
  "cell_value s c =
     (if board s ! nat (c * 2) = 1 then 1 else (if board s ! nat (c * 2 + 1) = 1 then - 1 else 0))"


subsection \<open>Paths of stones\<close>

text \<open>
  The six neighbours of a cell of the padded grid are at the offsets the constructor
  stores in \<open>neighbors\<close>.  \<open>stones player s\<close> are the playable cells that carry a stone
  of \<open>player\<close>.  The start edge of player 0 is the first playable row and the goal edge
  the last one (the row \<open>connect\<close> tests); for player 1 they are the first and the last
  playable column.  \<open>chain n S a\<close> are the cells that a path of neighbouring cells of
  \<open>S\<close> joins to \<open>a\<close>, and \<open>path_connects player s\<close> says that a path of the player's
  stones joins the start edge to the goal edge.
\<close>

definition hex_offsets :: "int \<Rightarrow> int list" where
  "hex_offsets n = [- (n + 2) + 1, - (n + 2), - 1, 1, n + 2, (n + 2) - 1]"

definition stones :: "int \<Rightarrow> hexgame \<Rightarrow> int set" where
  "stones player s =
     {c. playable (BOARD_DIM s) c \<and> board s ! nat (c * 2 + player) \<noteq> 0}"

definition start_edge :: "int \<Rightarrow> int \<Rightarrow> int \<Rightarrow> bool" where
  "start_edge player n c \<longleftrightarrow>
     player = 0 \<and> c div (n + 2) = 1 \<or> player = 1 \<and> c mod (n + 2) = 1"

definition goal_edge :: "int \<Rightarrow> int \<Rightarrow> int \<Rightarrow> bool" where
  "goal_edge player n c \<longleftrightarrow>
     player = 0 \<and> c div (n + 2) = n \<or> player = 1 \<and> c mod (n + 2) = n"

inductive_set chain :: "int \<Rightarrow> int set \<Rightarrow> int \<Rightarrow> int set" for n :: int and S :: "int set" and a :: int
where
  start: "a \<in> S \<Longrightarrow> a \<in> chain n S a"
| extend: "b \<in> chain n S a \<Longrightarrow> b' \<in> S \<Longrightarrow> b' - b \<in> set (hex_offsets n) \<Longrightarrow> b' \<in> chain n S a"

definition path_connects :: "int \<Rightarrow> hexgame \<Rightarrow> bool" where
  "path_connects player s \<longleftrightarrow>
     (\<exists>a \<in> stones player s. start_edge player (BOARD_DIM s) a \<and>
        (\<exists>b \<in> chain (BOARD_DIM s) (stones player s) a. goal_edge player (BOARD_DIM s) b))"


subsection \<open>The reference: a fresh flood fill over the whole board\<close>

text \<open>
  The reference recomputation of connectivity reads the occupancy only, never the
  connectivity marks.  It starts from the player's stones on the start edge and
  adds, once for every cell of the padded grid, the player's stones that neighbour
  a cell already reached; \<open>reference_win\<close> says that a cell of the goal edge has been
  reached.
\<close>

definition has_stone :: "int \<Rightarrow> hexgame \<Rightarrow> int \<Rightarrow> bool" where
  "has_stone player s c \<longleftrightarrow>
     playable (BOARD_DIM s) c \<and> board s ! nat (c * 2 + player) \<noteq> 0"

definition grid :: "int \<Rightarrow> int list" where
  "grid n = [0 .. (n + 2) * (n + 2) - 1]"

definition spread :: "int \<Rightarrow> hexgame \<Rightarrow> int list \<Rightarrow> int list" where
  "spread player s xs =
     filter (\<lambda>c. c \<in> set xs \<or>
                 has_stone player s c \<and>
                 (\<exists>d \<in> set (hex_offsets (BOARD_DIM s)). c - d \<in> set xs))
       (grid (BOARD_DIM s))"

fun spread_times :: "nat \<Rightarrow> int \<Rightarrow> hexgame \<Rightarrow> int list \<Rightarrow> int list" where
  "spread_times 0 player s xs = xs"
| "spread_times (Suc k) player s xs = spread_times k player s (spread player s xs)"

definition flood_fill :: "int \<Rightarrow> hexgame \<Rightarrow> int list" where
  "flood_fill player s =
     spread_times (length (grid (BOARD_DIM s))) player s
       (filter (\<lambda>c. has_stone player s c \<and> start_edge player (BOARD_DIM s) c)
          (grid (BOARD_DIM s)))"

definition reference_win :: "int \<Rightarrow> hexgame \<Rightarrow> bool" where
  "reference_win player s \<longleftrightarrow>
     (\<exists>c \<in> set (flood_fill player s). goal_edge player (BOARD_DIM s) c)"


subsection \<open>Marks and linked stones\<close>

text \<open>
  \<open>marked player s\<close> are the cells of the padded grid with a true connectivity mark
  of \<open>player\<close>.  The start sentinels are the border cells \<open>init\<close> marks: row 0 for
  player 0, column 0 for player 1.  \<open>linked player s\<close> are the player's stones that a
  path of the player's stones joins to the start edge.  \<open>exact_marks player s\<close>: the
  marked playable cells are the linked stones, and the marked border cells are the
  start sentinels.
\<close>

definition marked :: "int \<Rightarrow> hexgame \<Rightarrow> int set" where
  "marked player s =
     {c. 0 \<le> c \<and> c < (BOARD_DIM s + 2) * (BOARD_DIM s + 2) \<and>
         connected s ! nat (c * 2 + player) \<noteq> 0}"

definition start_sentinel :: "int \<Rightarrow> int \<Rightarrow> int \<Rightarrow> bool" where
  "start_sentinel player n c \<longleftrightarrow>
     player = 0 \<and> c div (n + 2) = 0 \<or> player = 1 \<and> c mod (n + 2) = 0"

definition linked_in :: "int \<Rightarrow> int \<Rightarrow> int set \<Rightarrow> int set" where
  "linked_in n player S = {b. \<exists>a \<in> S. start_edge player n a \<and> b \<in> chain n S a}"

definition linked :: "int \<Rightarrow> hexgame \<Rightarrow> int set" where
  "linked player s = linked_in (BOARD_DIM s) player (stones player s)"

definition exact_marks :: "int \<Rightarrow> hexgame \<Rightarrow> bool" where
  "exact_marks player s \<longleftrightarrow>
     (\<forall>c. 0 \<le> c \<and> c < (BOARD_DIM s + 2) * (BOARD_DIM s + 2) \<longrightarrow>
        (c \<in> marked player s \<longleftrightarrow>
           (if playable (BOARD_DIM s) c then c \<in> linked player s
            else start_sentinel player (BOARD_DIM s) c)))"


subsection \<open>A game in progress\<close>

text \<open>
  \<open>in_play s\<close>: the object is in a game that no call of \<open>winner\<close> has reported won.
  It has been constructed with a positive dimension or reset by \<open>init\<close>, and since
  then every stone has been placed by \<open>place_piece_randomly\<close> (for player 0 or 1, in
  any order, with any value of \<open>rand()\<close>) and followed by the call of \<open>winner\<close> for
  that player at the position returned, which has returned 0.  This is the loop of
  the two drivers, which call \<open>winner\<close> after every placement and leave the game at
  the first win.
\<close>

inductive in_play :: "hexgame \<Rightarrow> bool" where
  opened: "1 \<le> dim \<Longrightarrow> HexGame dim = Inr s \<Longrightarrow> in_play s"
| reopened: "reachable s u \<Longrightarrow> init s = Inr s' \<Longrightarrow> in_play s'"
| moved: "in_play s \<Longrightarrow> player = 0 \<or> player = 1 \<Longrightarrow> 0 \<le> rand \<Longrightarrow>
     place_piece_randomly rand player s = Inr (pos, s1) \<Longrightarrow>
     winner player pos s1 = Inr (0, s2) \<Longrightarrow> in_play s2"


subsection \<open>What a fill establishes\<close>

text \<open>
  \<open>framed n p S t\<close>: the object has the sizes of a board of dimension \<open>n\<close> and the
  stones of player \<open>p\<close> are \<open>S\<close>.  \<open>fill_post\<close> relates the marks \<open>M\<close> before a call of
  \<open>connect\<close> at the cell \<open>c\<close> to its result \<open>r\<close> and the marks \<open>M'\<close> after it: the new
  marks are on stones that a path joins to \<open>c\<close>; a result 1 comes with a marked cell
  of the goal edge on such a path; after a result 0 no new mark is on the goal edge
  and every stone next to a new mark is marked.  \<open>loop_post\<close> is the same for the
  loop of \<open>connect\<close> over the neighbours \<open>is\<close> of \<open>c\<close>.
\<close>

definition framed :: "int \<Rightarrow> int \<Rightarrow> int set \<Rightarrow> hexgame \<Rightarrow> bool" where
  "framed n p S t \<longleftrightarrow>
     sized t \<and> BOARD_DIM t = n \<and> stones p t = S \<and>
     (\<forall>c. 0 \<le> c \<and> c < (n + 2) * (n + 2) \<longrightarrow> board t ! nat (c * 2 + p) \<noteq> 0 \<longrightarrow> c \<in> S)"

definition fill_post :: "int \<Rightarrow> int \<Rightarrow> int set \<Rightarrow> int \<Rightarrow> int set \<Rightarrow> int \<Rightarrow> int set \<Rightarrow> bool" where
  "fill_post n p S c M r M' \<longleftrightarrow>
     M \<subseteq> M' \<and> c \<in> M' \<and> M' - M \<subseteq> chain n S c \<and> (r = 0 \<or> r = 1) \<and>
     (r = 0 \<longrightarrow> (\<forall>x \<in> M' - M. \<not> goal_edge p n x \<and>
                    (\<forall>y \<in> S. y - x \<in> set (hex_offsets n) \<longrightarrow> y \<in> M'))) \<and>
     (r \<noteq> 0 \<longrightarrow> (\<exists>x \<in> M'. x \<in> chain n S c \<and> goal_edge p n x))"

definition loop_post ::
  "int \<Rightarrow> int \<Rightarrow> int set \<Rightarrow> int \<Rightarrow> int list \<Rightarrow> int set \<Rightarrow> int \<Rightarrow> int set \<Rightarrow> bool" where
  "loop_post n p S c is M r M' \<longleftrightarrow>
     M \<subseteq> M' \<and> M' - M \<subseteq> chain n S c \<and> (r = 0 \<or> r = 1) \<and>
     (r = 0 \<longrightarrow> (\<forall>x \<in> M' - M. \<not> goal_edge p n x \<and>
                    (\<forall>y \<in> S. y - x \<in> set (hex_offsets n) \<longrightarrow> y \<in> M')) \<and>
                (\<forall>i \<in> set is. c + hex_offsets n ! nat i \<in> S \<longrightarrow> c + hex_offsets n ! nat i \<in> M')) \<and>
     (r \<noteq> 0 \<longrightarrow> (\<exists>x \<in> M'. x \<in> chain n S c \<and> goal_edge p n x))"


subsection \<open>Example objects\<close>

text \<open>
  A 2 by 2 board (padded 4 by 4: the playable cells are 5, 6, 9 and 10) as the
  constructor leaves it, after player 0 has been placed on cell 5, after player 1
  has then been placed on cell 10, and after these two moves have been removed again.
  A 1 by 1 board (padded 3 by 3, playable cell 4), empty and full.  A game on the
  2 by 2 board that player 0 wins with the column of cells 5 and 9, \<open>winner\<close> being
  called after each placement, and the object after the winning move is removed.
\<close>

definition game2 :: hexgame where
  "game2 = \<lparr>BOARD_DIM = 2,
            board = replicate 32 0,
            open_positions = [5, 6, 9, 10],
            number_of_open_positions = 4,
            moves = [],
            connected = [1, 1, 1, 0, 1, 0, 1, 0,
                         0, 1, 0, 0, 0, 0, 0, 0,
                         0, 1, 0, 0, 0, 0, 0, 0,
                         0, 1, 0, 0, 0, 0, 0, 0],
            neighbors = [- 3, - 4, - 1, 1, 4, 3]\<rparr>"


definition game2_first :: hexgame where
  "game2_first = game2\<lparr>board := (board game2)[10 := 1],
                        moves := [0],
                        open_positions := [10, 6, 9, 10],
                        number_of_open_positions := 3\<rparr>"

definition game2_second :: hexgame where
  "game2_second = game2_first\<lparr>board := (board game2_first)[21 := 1],
                               moves := [0, 3],
                               open_positions := [9, 6, 9, 10],
                               number_of_open_positions := 2\<rparr>"

definition game2_rewound :: hexgame where
  "game2_rewound = game2_second\<lparr>moves := [], board := replicate 32 0\<rparr>"

definition game1 :: hexgame where
  "game1 = \<lparr>BOARD_DIM = 1,
            board = replicate 18 0,
            open_positions = [4],
            number_of_open_positions = 1,
            moves = [],
            connected = [1, 1, 1, 0, 1, 0,
                         0, 1, 0, 0, 0, 0,
                         0, 1, 0, 0, 0, 0],
            neighbors = [- 2, - 3, - 1, 1, 3, 2]\<rparr>"

definition game1_full :: hexgame where
  "game1_full = game1\<lparr>board := (board game1)[8 := 1],
                       moves := [0],
                       open_positions := [4],
                       number_of_open_positions := 0\<rparr>"

definition game2_first_marked :: hexgame where
  "game2_first_marked = game2_first\<lparr>connected := (connected game2_first)[10 := 1]\<rparr>"

definition game2_column :: hexgame where
  "game2_column = game2_first_marked\<lparr>board := (board game2_first_marked)[18 := 1],
                                      moves := [0, 2],
                                      number_of_open_positions := 2\<rparr>"

definition game2_won :: hexgame where
  "game2_won = game2_column\<lparr>connected := (connected game2_column)[18 := 1]\<rparr>"

definition game2_won_rewound :: hexgame where
  "game2_won_rewound = game2_won\<lparr>moves := [0], board := (board game2_won)[18 := 0]\<rparr>"

text \<open>
  The 2 by 2 board after player 0 has been placed on cell 5 and then on cell 9,
  with no call of \<open>winner\<close> in between.
\<close>

definition game2_unchecked :: hexgame where
  "game2_unchecked = game2_first\<lparr>board := (board game2_first)[18 := 1],
                                   moves := [0, 2],
                                   number_of_open_positions := 2\<rparr>"

text \<open>
  The 2 by 2 board after player 0 has been placed on cell 5, \<open>winner\<close> has marked the
  cell, and the move has been removed (the mark stays); then after player 0 has been
  placed on cell 9; then after \<open>winner\<close> has been called for that stone.
\<close>

definition game2_marked_rewound :: hexgame where
  "game2_marked_rewound =
     game2_first_marked\<lparr>moves := [], board := (board game2_first_marked)[10 := 0]\<rparr>"

definition game2_stale :: hexgame where
  "game2_stale = game2_marked_rewound\<lparr>board := (board game2_marked_rewound)[18 := 1],
                                       moves := [2],
                                       number_of_open_positions := 2\<rparr>"

definition game2_stale_won :: hexgame where
  "game2_stale_won = game2_stale\<lparr>connected := (connected game2_stale)[18 := 1]\<rparr>"

section \<open>Auxiliary lemmas\<close>

subsection \<open>Basic facts about the error monad and checked accesses\<close>

lemma ebind_Inr [simp]: "ebind (Inr x) f = f x"
  by (simp add: ebind_def)

lemma ebind_Inl [simp]: "ebind (Inl e) f = Inl e"
  by (simp add: ebind_def)

lemma ebind_eq_Inr: "ebind m f = Inr y \<longleftrightarrow> (\<exists>x. m = Inr x \<and> f x = Inr y)"
  by (cases m) simp_all

lemma at_eq_Inr: "at v i = Inr x \<longleftrightarrow> 0 \<le> i \<and> i < int (length v) \<and> x = v ! nat i"
  by (auto simp: at_def)

lemma put_eq_Inr: "put v i x = Inr w \<longleftrightarrow> 0 \<le> i \<and> i < int (length v) \<and> w = v[nat i := x]"
  by (auto simp: put_def)

lemma at_in_range: "0 \<le> i \<Longrightarrow> i < int (length v) \<Longrightarrow> at v i = Inr (v ! nat i)"
  by (simp add: at_def)

lemma put_in_range: "0 \<le> i \<Longrightarrow> i < int (length v) \<Longrightarrow> put v i x = Inr (v[nat i := x])"
  by (simp add: put_def)

lemma sdiv_nonneg: "0 \<le> a \<Longrightarrow> 0 < b \<Longrightarrow> a sdiv b = a div (b::int)"
  by (cases "a = 0") (simp_all add: signed_divide_int_def)

lemma smod_nonneg: "0 \<le> a \<Longrightarrow> 0 < b \<Longrightarrow> a smod b = a mod (b::int)"
  by (cases "a = 0") (simp_all add: signed_modulo_int_def)

lemma c_div_nonneg: "0 \<le> a \<Longrightarrow> 0 < b \<Longrightarrow> c_div a b = Inr (a div b)"
  by (simp add: c_div_def sdiv_nonneg)

lemma c_mod_nonneg: "0 \<le> a \<Longrightarrow> 0 < b \<Longrightarrow> c_mod a b = Inr (a mod b)"
  by (simp add: c_mod_def smod_nonneg)

lemma for_each_append:
  "for_each (xs @ ys) body s = ebind (for_each xs body s) (for_each ys body)"
  by (induction xs arbitrary: s) (auto simp: ebind_def split: sum.splits)

lemma for_each_nested:
  "for_each xs (\<lambda>i. for_each ys (\<lambda>j. f i j)) s
     = for_each (List.product xs ys) (\<lambda>(i, j). f i j) s"
proof (induction xs arbitrary: s)
  case Nil
  then show ?case by simp
next
  case (Cons x xs)
  have inner: "for_each (map (Pair x) ys) (\<lambda>(i, j). f i j) t = for_each ys (f x) t" for t
    by (induction ys arbitrary: t) (auto simp: ebind_def split: sum.splits)
  show ?case
    by (simp add: for_each_append inner Cons.IH ebind_def split: sum.splits)
qed

text \<open>A loop invariant, indexed by the number of iterations done.\<close>

lemma for_each_invariant:
  assumes "I 0 s"
    and "\<And>k t. k < length xs \<Longrightarrow> I k t \<Longrightarrow> \<exists>t'. body (xs ! k) t = Inr t' \<and> I (Suc k) t'"
  shows "\<exists>s'. for_each xs body s = Inr s' \<and> I (length xs) s'"
  using assms
proof (induction xs arbitrary: s I)
  case Nil
  then show ?case by simp
next
  case (Cons x xs)
  from Cons.prems(2) [of 0 s] Cons.prems(1)
  obtain t where t: "body x s = Inr t" "I (Suc 0) t" by auto
  have "\<exists>s'. for_each xs body t = Inr s' \<and> (\<lambda>k. I (Suc k)) (length xs) s'"
  proof (rule Cons.IH)
    show "I (Suc 0) t" by (rule t)
  next
    fix k u assume "k < length xs" "I (Suc k) u"
    with Cons.prems(2) [of "Suc k" u]
    show "\<exists>t'. body (xs ! k) u = Inr t' \<and> I (Suc (Suc k)) t'" by simp
  qed
  with t show ?case by simp
qed

subsection \<open>\<open>init\<close> establishes the fresh state\<close>

lemma put_nat: "k < length v \<Longrightarrow> put v (int k) x = Inr (v[k := x])"
  by (simp add: put_def)

lemma at_nat: "k < length v \<Longrightarrow> at v (int k) = Inr (v ! k)"
  by (simp add: at_def)

lemma init_cell_in_range:
  assumes n: "BOARD_DIM s = int n"
    and i: "i < n + 2" and j: "j < n + 2"
    and lb: "length (board s) = 2 * ((n + 2) * (n + 2))"
    and lc: "length (connected s) = 2 * ((n + 2) * (n + 2))"
    and lo: "length (open_positions s) = n * n"
  shows "init_cell (int i) (int j) s =
     Inr (s\<lparr>board := (board s)[2 * (i * (n + 2) + j) := 0, 2 * (i * (n + 2) + j) + 1 := 0],
            open_positions :=
              (if 0 < i \<and> i < n + 1 \<and> 0 < j \<and> j < n + 1
               then (open_positions s)[(i - 1) * n + (j - 1) := int (i * (n + 2) + j)]
               else open_positions s),
            connected := (connected s)[2 * (i * (n + 2) + j) := (if i = 0 then 1 else 0),
                                       2 * (i * (n + 2) + j) + 1 := (if j = 0 then 1 else 0)]\<rparr>)"
proof -
  define c where "c = i * (n + 2) + j"
  define sz where "sz = (n + 2) * (n + 2)"
  have ci: "int i * (int n + 2) + int j = int c" by (simp add: c_def algebra_simps)
  have "i * (n + 2) \<le> (n + 1) * (n + 2)" using i by (intro mult_right_mono) auto
  then have cb: "c < sz" using j by (simp add: c_def sz_def)
  have c2: "int c * 2 = int (2 * c)" by simp
  have c3: "int (2 * c) + 1 = int (2 * c + 1)" by simp
  have lb2: "2 * c + 1 < length (board s)" using cb lb unfolding sz_def [symmetric] by linarith
  have lc2: "2 * c + 1 < length (connected s)" using cb lc unfolding sz_def [symmetric] by linarith
  have p1: "put (board s) (int (2 * c)) 0 = Inr ((board s)[2 * c := 0])"
    by (rule put_nat) (use lb2 in linarith)
  have p2: "put ((board s)[2 * c := 0]) (int (2 * c) + 1) 0 = Inr ((board s)[2 * c := 0, 2 * c + 1 := 0])"
    unfolding c3 by (rule put_nat) (use lb2 in simp)
  have p3: "put (connected s) (int (2 * c)) x = Inr ((connected s)[2 * c := x])" for x
    by (rule put_nat) (use lc2 in linarith)
  have p4: "put ((connected s)[2 * c := x]) (int (2 * c) + 1) y = Inr ((connected s)[2 * c := x, 2 * c + 1 := y])" for x y
    unfolding c3 by (rule put_nat) (use lc2 in simp)
  have p5: "put (open_positions s) ((int i - 1) * int n + int j - 1) (int c)
       = Inr ((open_positions s)[(i - 1) * n + (j - 1) := int c])"
    if "0 < i" "i < n + 1" "0 < j" "j < n + 1"
  proof -
    have e: "(int i - 1) * int n + int j - 1 = int ((i - 1) * n + (j - 1))"
    proof -
      from that obtain i' j' where "i = Suc i'" "j = Suc j'"
        by (cases i; cases j) auto
      then show ?thesis by (simp add: algebra_simps)
    qed
    have "(i - 1) * n \<le> (n - 1) * n" using that by (intro mult_right_mono) auto
    then have "(i - 1) * n + (j - 1) < (n - 1) * n + n" using that by linarith
    also have "\<dots> = n * n" using that by (cases n) simp_all
    finally have "(i - 1) * n + (j - 1) < length (open_positions s)" using lo by simp
    then show ?thesis unfolding e by (rule put_nat)
  qed
  show ?thesis
    unfolding init_cell_def Let_def n ci c2 p1 p2 p3 p4 ebind_Inr c_def [symmetric]
    using p5 by (auto simp del: of_nat_mult of_nat_add)
qed

lemma div_mod_decomp:
  fixes a m w :: nat
  assumes "m < w"
  shows "(a * w + m) div w = a" and "(a * w + m) mod w = m"
  using assms by simp_all

lemma pad_div_mod:
  fixes n q :: nat
  assumes "0 < n"
  shows "((q div n + 1) * (n + 2) + (q mod n + 1)) div (n + 2) = q div n + 1"
    and "((q div n + 1) * (n + 2) + (q mod n + 1)) mod (n + 2) = q mod n + 1"
proof -
  have "q mod n + 1 < n + 2" using assms mod_less_divisor [of n q] by linarith
  then show "((q div n + 1) * (n + 2) + (q mod n + 1)) div (n + 2) = q div n + 1"
    and "((q div n + 1) * (n + 2) + (q mod n + 1)) mod (n + 2) = q mod n + 1"
    by (rule div_mod_decomp)+
qed

lemma init_fresh:
  assumes "sized s"
  shows "init s = Inr (fresh s)"
proof -
  define n where "n = nat (BOARD_DIM s)"
  define w where "w = n + 2"
  from assms have N: "BOARD_DIM s = int n"
    by (simp add: sized_def Let_def n_def)
  have iw: "int n + 2 = int w" by (simp add: w_def)
  from assms have "int (length (board s)) = int (2 * (w * w))"
    and "int (length (connected s)) = int (2 * (w * w))"
    and "int (length (open_positions s)) = int (n * n)"
    unfolding sized_def Let_def N iw by simp_all
  then have lb: "length (board s) = 2 * (w * w)"
    and lc: "length (connected s) = 2 * (w * w)"
    and lo: "length (open_positions s) = n * n"
    unfolding of_nat_eq_iff by blast+
  have natw: "nat (int n + 2) = w" by (simp add: w_def)
  define pad where "pad q = (q div n + 1) * w + (q mod n + 1)" for q
  define fc :: "nat \<Rightarrow> int" where
    "fc k = (if even k then (if k div 2 < w then 1 else 0)
             else (if (k div 2) mod w = 0 then 1 else 0))" for k
  define I where "I k t \<longleftrightarrow>
      BOARD_DIM t = int n \<and> neighbors t = neighbors s \<and>
      length (board t) = 2 * (w * w) \<and> length (connected t) = 2 * (w * w) \<and>
      length (open_positions t) = n * n \<and>
      (\<forall>x < 2 * k. board t ! x = 0 \<and> connected t ! x = fc x) \<and>
      (\<forall>q < n * n. pad q < k \<longrightarrow> open_positions t ! q = int (pad q))" for k and t :: hexgame
  let ?xs = "List.product [0 ..< w] [0 ..< w]"
  let ?body = "\<lambda>(i, j). init_cell (int i) (int j)"
  have I0: "I 0 s" by (simp add: I_def N lb lc lo)
  have step: "\<exists>t'. ?body (?xs ! k) t = Inr t' \<and> I (Suc k) t'" if k: "k < length ?xs" and Ik: "I k t" for k t
  proof -
    from k have kw: "k < w * w" by simp
    define i where "i = k div w"
    define j where "j = k mod w"
    have w0: "0 < w" by (simp add: w_def)
    have i: "i < n + 2" using kw unfolding i_def w_def [symmetric]
      by (simp add: less_mult_imp_div_less)
    have j: "j < n + 2" using w0 unfolding j_def w_def [symmetric] by simp
    have ck: "i * (n + 2) + j = k" unfolding i_def j_def w_def [symmetric] by simp
    have xk: "?xs ! k = (i, j)"
      using kw w0 unfolding i_def j_def by (simp add: product_nth less_mult_imp_div_less)
    from Ik have t: "BOARD_DIM t = int n" "neighbors t = neighbors s"
      "length (board t) = 2 * (w * w)" "length (connected t) = 2 * (w * w)"
      "length (open_positions t) = n * n"
      and old: "\<And>x. x < 2 * k \<Longrightarrow> board t ! x = 0 \<and> connected t ! x = fc x"
      and oldo: "\<And>q. q < n * n \<Longrightarrow> pad q < k \<Longrightarrow> open_positions t ! q = int (pad q)"
      by (auto simp: I_def)
    define t' where "t' = t\<lparr>board := (board t)[2 * k := 0, 2 * k + 1 := 0],
            open_positions :=
              (if 0 < i \<and> i < n + 1 \<and> 0 < j \<and> j < n + 1
               then (open_positions t)[(i - 1) * n + (j - 1) := int k]
               else open_positions t),
            connected := (connected t)[2 * k := (if i = 0 then 1 else 0),
                                       2 * k + 1 := (if j = 0 then 1 else 0)]\<rparr>"
    have run: "init_cell (int i) (int j) t = Inr t'"
      using init_cell_in_range [OF t(1) i j t(3) [unfolded w_def] t(4) [unfolded w_def] t(5)]
      unfolding ck t'_def .
    have k2: "2 * k + 1 < 2 * (w * w)" using kw by linarith
    have fc0: "fc (2 * k) = (if i = 0 then 1 else 0)"
      using w0 by (simp add: fc_def i_def div_eq_0_iff)
    have fc1: "fc (2 * k + 1) = (if j = 0 then 1 else 0)"
      by (simp add: fc_def j_def)
    have cells: "board t' ! x = 0 \<and> connected t' ! x = fc x" if "x < 2 * Suc k" for x
    proof -
      from that have "x < 2 * k \<or> x = 2 * k \<or> x = 2 * k + 1" by arith
      then consider "x < 2 * k" | "x = 2 * k" | "x = 2 * k + 1" by blast
      then show ?thesis
      proof cases
        case 1 with old [of x] show ?thesis by (simp add: t'_def)
      next
        case 2 with k2 t fc0 show ?thesis by (simp add: t'_def)
      next
        case 3 with k2 t fc1 show ?thesis by (simp add: t'_def)
      qed
    qed
    have opens: "open_positions t' ! q = int (pad q)" if q: "q < n * n" and pq: "pad q < Suc k" for q
    proof -
      from q have n0: "0 < n" by (cases n) simp_all
      have pdiv: "pad q div w = q div n + 1" and pmod: "pad q mod w = q mod n + 1"
        unfolding pad_def w_def using pad_div_mod [OF n0, of q] by simp_all
      have qd: "q div n < n" using q n0 by (simp add: less_mult_imp_div_less)
      have qm: "q mod n < n" using n0 by simp
      show ?thesis
      proof (cases "pad q = k")
        case True
        then have ij: "i = q div n + 1" "j = q mod n + 1"
          using pdiv pmod by (simp_all add: i_def j_def)
        then have "(i - 1) * n + (j - 1) = q" by simp
        with ij qd qm q t True show ?thesis by (simp add: t'_def)
      next
        case False
        with pq have lt: "pad q < k" by simp
        show ?thesis
        proof (cases "0 < i \<and> i < n + 1 \<and> 0 < j \<and> j < n + 1")
          case False
          then have "open_positions t' = open_positions t" unfolding t'_def by auto
          then show ?thesis using oldo [OF q lt] by simp
        next
          case True
          then obtain i' j' where ij: "i = Suc i'" "j = Suc j'" "i' < n" "j' < n"
            by (cases i; cases j) auto
          have "pad (i' * n + j') = k"
            using ij ck by (simp add: pad_def w_def)
          with \<open>pad q \<noteq> k\<close> have "q \<noteq> i' * n + j'" by auto
          then show ?thesis using oldo [OF q lt] True ij by (simp add: t'_def)
        qed
      qed
    qed
    have "I (Suc k) t'"
      unfolding I_def using cells opens t by (simp add: t'_def)
    with run xk show ?thesis by simp
  qed
  from for_each_invariant [of I s ?xs ?body, OF I0 step]
  obtain t where run: "for_each ?xs ?body s = Inr t" and It: "I (length ?xs) t" by blast
  have len: "length ?xs = w * w" by simp
  from It have t: "BOARD_DIM t = int n" "neighbors t = neighbors s"
      "length (board t) = 2 * (w * w)" "length (connected t) = 2 * (w * w)"
      "length (open_positions t) = n * n"
      and cells: "\<And>x. x < 2 * (w * w) \<Longrightarrow> board t ! x = 0 \<and> connected t ! x = fc x"
      and opens: "\<And>q. q < n * n \<Longrightarrow> pad q < w * w \<Longrightarrow> open_positions t ! q = int (pad q)"
    unfolding len by (auto simp: I_def)
  have "2 * (int n + 2) * (int n + 2) = int (2 * (w * w))"
    by (simp add: w_def algebra_simps)
  then have sz: "nat (2 * (int n + 2) * (int n + 2)) = 2 * (w * w)"
    by (simp only: nat_int)
  have "int n * int n = int (n * n)" by simp
  then have szo: "nat (int n * int n) = n * n"
    by (simp only: nat_int)
  have b: "board t = replicate (2 * (w * w)) 0"
    by (rule nth_equalityI) (use t cells in simp_all)
  have c: "connected t = fresh_connected (int n)"
  proof (rule nth_equalityI)
    show "length (connected t) = length (fresh_connected (int n))"
      unfolding fresh_connected_def sz by (simp add: t)
  next
    fix x assume "x < length (connected t)"
    then have x: "x < 2 * (w * w)" using t by simp
    have "int (x div 2) < int w \<longleftrightarrow> x div 2 < w" by simp
    moreover have "int (x div 2) mod int w = 0 \<longleftrightarrow> (x div 2) mod w = 0"
      by (simp flip: of_nat_mod)
    moreover have "int w = int n + 2" by (simp add: w_def)
    ultimately have "fresh_connected (int n) ! x = fc x"
      using x unfolding fresh_connected_def sz fc_def
      by (simp add: zdiv_int del: of_nat_add)
    with cells [OF x] show "connected t ! x = fresh_connected (int n) ! x" by simp
  qed
  have o: "open_positions t = map (\<lambda>q. padded_of (int n) (int q)) [0 ..< n * n]"
  proof (rule nth_equalityI)
    show "length (open_positions t) = length (map (\<lambda>q. padded_of (int n) (int q)) [0 ..< n * n])"
      by (simp add: t)
  next
    fix q assume "q < length (open_positions t)"
    then have q: "q < n * n" using t by simp
    then have n0: "0 < n" by (cases n) simp_all
    have qd: "q div n < n" using q n0 by (simp add: less_mult_imp_div_less)
    have qm: "q mod n < n" using n0 by simp
    have "(q div n + 1) * w \<le> n * w" using qd by (intro mult_right_mono) auto
    then have "pad q < n * w + w" using qm unfolding pad_def w_def by linarith
    also have "\<dots> \<le> w * w" by (simp add: w_def)
    finally have pw: "pad q < w * w" .
    have "padded_of (int n) (int q) = int (pad q)"
      by (simp add: padded_of_def pad_def w_def zdiv_int zmod_int algebra_simps)
    with opens [OF q pw] q
    show "open_positions t ! q = map (\<lambda>q. padded_of (int n) (int q)) [0 ..< n * n] ! q" by simp
  qed
  have "t\<lparr>number_of_open_positions := int n * int n, moves := []\<rparr> = fresh s"
    unfolding fresh_def Let_def N sz szo
    by (rule hexgame.equality) (simp_all add: b c o t N)
  then show ?thesis
    unfolding init_def Let_def N natw for_each_nested run by simp
qed

subsection \<open>Padded and logical indices\<close>

lemma int_div_mod_decomp:
  fixes a m w :: int
  assumes "0 \<le> m" "m < w"
  shows "(a * w + m) div w = a" and "(a * w + m) mod w = m"
  using assms by simp_all

lemma playable_range:
  assumes "1 \<le> n" "playable n c"
  shows "0 \<le> c" and "c < (n + 2) * (n + 2)"
proof -
  define r where "r = c div (n + 2)"
  define j where "j = c mod (n + 2)"
  have c: "c = r * (n + 2) + j" using div_mult_mod_eq [of c "n + 2"] by (simp add: r_def j_def)
  from assms have rj: "1 \<le> r" "r \<le> n" "1 \<le> j" "j \<le> n"
    by (simp_all add: playable_def r_def j_def)
  have "0 \<le> r * (n + 2)" using rj assms by simp
  then show "0 \<le> c" using rj c by linarith
  have "0 \<le> n + 2" using assms by linarith
  with rj(2) have "r * (n + 2) \<le> n * (n + 2)" by (rule mult_right_mono)
  then have "c < n * (n + 2) + (n + 2)" using rj c by linarith
  also have "\<dots> \<le> (n + 2) * (n + 2)" using assms(1) by (simp add: algebra_simps)
  finally show "c < (n + 2) * (n + 2)" .
qed

lemma logical_of_playable:
  assumes "1 \<le> n" "playable n c"
  shows "0 \<le> logical_of n c" and "logical_of n c < n * n"
    and "padded_of n (logical_of n c) = c"
proof -
  define r where "r = c div (n + 2) - 1"
  define j where "j = c mod (n + 2) - 1"
  have c: "c = (r + 1) * (n + 2) + (j + 1)" using div_mult_mod_eq [of c "n + 2"] by (simp add: r_def j_def)
  from assms have rj: "0 \<le> r" "r < n" "0 \<le> j" "j < n"
    by (simp_all add: playable_def r_def j_def)
  have l: "logical_of n c = r * n + j" by (simp add: logical_of_def r_def j_def)
  have "0 \<le> r * n" using rj assms by simp
  then show "0 \<le> logical_of n c" using rj l by linarith
  have "r \<le> n - 1" "0 \<le> n" using rj assms by linarith+
  then have "r * n \<le> (n - 1) * n" by (rule mult_right_mono)
  then have "r * n + j < (n - 1) * n + n" using rj by linarith
  also have "\<dots> = n * n" by (simp add: algebra_simps)
  finally show "logical_of n c < n * n" using l by simp
  have dm: "(r * n + j) div n = r" "(r * n + j) mod n = j"
    using rj(3,4) by (rule int_div_mod_decomp)+
  have "padded_of n (r * n + j) = (r + 1) * (n + 2) + (j + 1)"
    unfolding padded_of_def dm by simp
  then show "padded_of n (logical_of n c) = c"
    using l c by simp
qed

lemma padded_of_logical:
  assumes "1 \<le> n" "0 \<le> m" "m < n * n"
  shows "playable n (padded_of n m)" and "logical_of n (padded_of n m) = m"
proof -
  define r where "r = m div n"
  define j where "j = m mod n"
  have m: "m = r * n + j" using div_mult_mod_eq [of m n] by (simp add: r_def j_def)
  have j: "0 \<le> j" "j < n" using assms by (simp_all add: j_def)
  have r0: "0 \<le> r" using assms by (simp add: r_def pos_imp_zdiv_nonneg_iff)
  have r1: "r < n"
  proof (rule ccontr)
    assume "\<not> r < n"
    then have "n \<le> r" "0 \<le> n" using assms by linarith+
    then have "n * n \<le> r * n" by (rule mult_right_mono)
    with m j assms show False by linarith
  qed
  have p: "padded_of n m = (r + 1) * (n + 2) + (j + 1)" by (simp add: padded_of_def r_def j_def)
  have "0 \<le> j + 1" "j + 1 < n + 2" using j by simp_all
  then have d: "((r + 1) * (n + 2) + (j + 1)) div (n + 2) = r + 1"
    "((r + 1) * (n + 2) + (j + 1)) mod (n + 2) = j + 1"
    by (rule int_div_mod_decomp)+
  show "playable n (padded_of n m)"
    unfolding p playable_def d using r0 r1 j by simp
  have "logical_of n (padded_of n m) = r * n + j"
    unfolding p logical_of_def d by simp
  then show "logical_of n (padded_of n m) = m"
    using m by simp
qed

lemma logical_of_inj:
  assumes "1 \<le> n" "playable n c" "playable n c'" "logical_of n c = logical_of n c'"
  shows "c = c'"
proof -
  have "c = padded_of n (logical_of n c)"
    by (rule logical_of_playable(3) [OF assms(1,2), symmetric])
  also have "\<dots> = padded_of n (logical_of n c')" by (simp only: assms(4))
  also have "\<dots> = c'" by (rule logical_of_playable(3) [OF assms(1,3)])
  finally show ?thesis .
qed

lemma swap_remove_live:
  assumes d: "distinct (take k xs)" and i: "i < k" and k: "k \<le> length xs"
  shows "distinct (take (k - 1) (xs[i := xs ! (k - 1)]))"
    and "set (take (k - 1) (xs[i := xs ! (k - 1)])) = set (take k xs) - {xs ! i}"
proof -
  from i obtain k' where k': "k = Suc k'" by (cases k) auto
  have tk: "take (Suc k') xs = take k' xs @ [xs ! k']"
    using k unfolding k' by (simp add: take_Suc_conv_app_nth)
  from d have d': "distinct (take k' xs)" and nl: "xs ! k' \<notin> set (take k' xs)"
    unfolding k' tk by simp_all
  have sw: "take k' (xs[i := xs ! k']) = (take k' xs)[i := xs ! k']"
    by (simp add: take_update_swap)
  show "distinct (take (k - 1) (xs[i := xs ! (k - 1)]))"
    unfolding k' using d' nl by (simp add: sw distinct_list_update)
  show "set (take (k - 1) (xs[i := xs ! (k - 1)])) = set (take k xs) - {xs ! i}"
  proof (cases "i = k'")
    case True
    then have "take k' (xs[i := xs ! k']) = take k' xs" by simp
    then show ?thesis unfolding k' using True tk nl by auto
  next
    case False
    with i k' have ik: "i < k'" by simp
    then have il: "i < length (take k' xs)" using k k' by simp
    have xi: "take k' xs ! i = xs ! i" using ik by simp
    have "xs ! i \<in> set (take k' xs)" using il xi by (metis nth_mem)
    with nl have ne: "xs ! k' \<noteq> xs ! i" by auto
    show ?thesis
      unfolding k' diff_Suc_1 sw set_update_distinct [OF d' il] xi tk
      using ne nl by auto
  qed
qed

subsection \<open>\<open>place_piece_randomly\<close> on a valid object\<close>

lemma validD:
  assumes "valid s"
  shows "sized s" and "1 \<le> BOARD_DIM s"
    and "0 \<le> number_of_open_positions s"
    and "number_of_open_positions s \<le> BOARD_DIM s * BOARD_DIM s"
    and "distinct (take (nat (number_of_open_positions s)) (open_positions s))"
    and "\<And>c. c \<in> set (take (nat (number_of_open_positions s)) (open_positions s)) \<Longrightarrow>
           playable (BOARD_DIM s) c \<and> logical_of (BOARD_DIM s) c \<notin> set (moves s)"
    and "distinct (moves s)"
    and "\<And>m. m \<in> set (moves s) \<Longrightarrow> 0 \<le> m \<and> m < BOARD_DIM s * BOARD_DIM s"
    and "\<And>x. x \<in> set (board s) \<Longrightarrow> x = 0 \<or> x = 1"
    and "\<And>c. 0 \<le> c \<Longrightarrow> c < (BOARD_DIM s + 2) * (BOARD_DIM s + 2) \<Longrightarrow>
           \<not> (board s ! nat (c * 2) = 1 \<and> board s ! nat (c * 2 + 1) = 1) \<and>
           ((board s ! nat (c * 2) = 1 \<or> board s ! nat (c * 2 + 1) = 1)
              \<longleftrightarrow> playable (BOARD_DIM s) c \<and> logical_of (BOARD_DIM s) c \<in> set (moves s))"
  using assms unfolding valid_def Let_def by (simp_all add: Ball_def)

lemma sizedD:
  assumes "sized s"
  shows "0 \<le> BOARD_DIM s"
    and "int (length (board s)) = 2 * (BOARD_DIM s + 2) * (BOARD_DIM s + 2)"
    and "int (length (connected s)) = 2 * (BOARD_DIM s + 2) * (BOARD_DIM s + 2)"
    and "int (length (open_positions s)) = BOARD_DIM s * BOARD_DIM s"
    and "neighbors s = [- (BOARD_DIM s + 2) + 1, - (BOARD_DIM s + 2), - 1, 1,
                        BOARD_DIM s + 2, (BOARD_DIM s + 2) - 1]"
  using assms unfolding sized_def Let_def by auto

lemma cell_index_range:
  assumes "0 \<le> c" "c < w * w" "p = 0 \<or> p = 1" "int (length v) = 2 * w * w"
  shows "0 \<le> c * 2 + p" and "c * 2 + p < int (length v)"
proof -
  define sz where "sz = w * w"
  have l: "int (length v) = 2 * sz" using assms(4) by (simp add: sz_def)
  from assms show "0 \<le> c * 2 + p" by auto
  from assms(2,3) show "c * 2 + p < int (length v)" unfolding l sz_def [symmetric] by auto
qed

lemma place_result:
  assumes v: "valid s" and k: "0 < number_of_open_positions s"
    and r: "0 \<le> rand" and p: "player = 0 \<or> player = 1"
  shows "place_piece_randomly rand player s =
      Inr (open_positions s ! nat (rand mod number_of_open_positions s),
           s\<lparr>board := (board s)[nat (open_positions s ! nat (rand mod number_of_open_positions s) * 2 + player) := 1],
             moves := moves s @ [logical_of (BOARD_DIM s) (open_positions s ! nat (rand mod number_of_open_positions s))],
             open_positions := (open_positions s)[nat (rand mod number_of_open_positions s)
                                 := open_positions s ! nat (number_of_open_positions s - 1)],
             number_of_open_positions := number_of_open_positions s - 1\<rparr>)"
    and "open_positions s ! nat (rand mod number_of_open_positions s)
           \<in> set (take (nat (number_of_open_positions s)) (open_positions s))"
proof -
  define n where "n = BOARD_DIM s"
  define cnt where "cnt = number_of_open_positions s"
  define idx where "idx = rand mod cnt"
  define pos where "pos = open_positions s ! nat idx"
  note vd = validD [OF v, folded n_def cnt_def]
  note sd = sizedD [OF vd(1), folded n_def]
  have cnt: "0 < cnt" using k by (simp add: cnt_def)
  have idx: "0 \<le> idx" "idx < cnt" using cnt by (simp_all add: idx_def)
  have lo: "int (length (open_positions s)) = n * n" by (rule sd(4))
  have il: "idx < int (length (open_positions s))" using idx vd(4) lo by linarith
  have s1: "c_mod rand cnt = Inr idx"
    using r cnt by (simp add: c_mod_nonneg idx_def)
  have s2: "at (open_positions s) idx = Inr pos"
    using idx il by (simp add: at_def pos_def)
  have "nat idx < nat cnt" using idx by simp
  then have live: "pos \<in> set (take (nat cnt) (open_positions s))"
  proof -
    have "nat idx < length (take (nat cnt) (open_positions s))"
      using il idx by simp
    then have "take (nat cnt) (open_positions s) ! nat idx \<in> set (take (nat cnt) (open_positions s))"
      by (rule nth_mem)
    then show ?thesis using idx by (simp add: pos_def)
  qed
  from vd(6) [OF live] have pl: "playable n pos" by simp
  note pr = playable_range [OF vd(2) pl]
  have s3: "put (board s) (pos * 2 + player) 1 = Inr ((board s)[nat (pos * 2 + player) := 1])"
    using cell_index_range [OF pr p sd(2)] by (simp add: put_def)
  have n2: "0 < n + 2" using vd(2) by linarith
  have s4: "c_div pos (n + 2) = Inr (pos div (n + 2))"
    using pr(1) n2 by (rule c_div_nonneg)
  have s5: "c_mod pos (n + 2) = Inr (pos mod (n + 2))"
    using pr(1) n2 by (rule c_mod_nonneg)
  have s6: "at (open_positions s) (cnt - 1) = Inr (open_positions s ! nat (cnt - 1))"
    using cnt vd(4) lo by (simp add: at_def)
  have s7: "put (open_positions s) idx x = Inr ((open_positions s)[nat idx := x])" for x
    using idx il by (simp add: put_def)
  show "place_piece_randomly rand player s =
      Inr (open_positions s ! nat (rand mod number_of_open_positions s),
           s\<lparr>board := (board s)[nat (open_positions s ! nat (rand mod number_of_open_positions s) * 2 + player) := 1],
             moves := moves s @ [logical_of (BOARD_DIM s) (open_positions s ! nat (rand mod number_of_open_positions s))],
             open_positions := (open_positions s)[nat (rand mod number_of_open_positions s)
                                 := open_positions s ! nat (number_of_open_positions s - 1)],
             number_of_open_positions := number_of_open_positions s - 1\<rparr>)"
    unfolding place_piece_randomly_def n_def [symmetric] cnt_def [symmetric]
      idx_def [symmetric] s1 ebind_Inr pos_def [symmetric] s2 s3 s4 s5 s6 s7 Let_def logical_of_def
    by simp
  show "open_positions s ! nat (rand mod number_of_open_positions s)
           \<in> set (take (nat (number_of_open_positions s)) (open_positions s))"
    using live unfolding pos_def idx_def cnt_def .
qed

subsection \<open>The constructed object is valid\<close>

lemma validI:
  assumes "sized s" and "1 \<le> BOARD_DIM s"
    and "0 \<le> number_of_open_positions s"
    and "number_of_open_positions s \<le> BOARD_DIM s * BOARD_DIM s"
    and "distinct (take (nat (number_of_open_positions s)) (open_positions s))"
    and "\<And>c. c \<in> set (take (nat (number_of_open_positions s)) (open_positions s)) \<Longrightarrow>
           playable (BOARD_DIM s) c \<and> logical_of (BOARD_DIM s) c \<notin> set (moves s)"
    and "distinct (moves s)"
    and "\<And>m. m \<in> set (moves s) \<Longrightarrow> 0 \<le> m \<and> m < BOARD_DIM s * BOARD_DIM s"
    and "\<And>x. x \<in> set (board s) \<Longrightarrow> x = 0 \<or> x = 1"
    and "\<And>c. 0 \<le> c \<Longrightarrow> c < (BOARD_DIM s + 2) * (BOARD_DIM s + 2) \<Longrightarrow>
           \<not> (board s ! nat (c * 2) = 1 \<and> board s ! nat (c * 2 + 1) = 1) \<and>
           ((board s ! nat (c * 2) = 1 \<or> board s ! nat (c * 2 + 1) = 1)
              \<longleftrightarrow> playable (BOARD_DIM s) c \<and> logical_of (BOARD_DIM s) c \<in> set (moves s))"
  shows "valid s"
  unfolding valid_def Let_def
  apply (intro conjI ballI)
  using assms(1-5,7) apply simp_all [6]
  using assms(6) apply blast
  using assms(6) apply blast
  using assms(7) apply simp
  using assms(8) apply blast
  using assms(8) apply blast
  using assms(9) apply blast
  using assms(10) apply simp
  using assms(10) apply simp
  done

lemma sized_fresh:
  assumes "sized s"
  shows "sized (fresh s)"
proof -
  note sd = sizedD [OF assms]
  have a: "0 \<le> 2 * (BOARD_DIM s + 2) * (BOARD_DIM s + 2)" using sd(1) by simp
  have b: "0 \<le> BOARD_DIM s * BOARD_DIM s" by simp
  have "int (length (board (fresh s))) = 2 * (BOARD_DIM s + 2) * (BOARD_DIM s + 2)"
    unfolding fresh_def Let_def using a by simp
  moreover have "int (length (connected (fresh s))) = 2 * (BOARD_DIM s + 2) * (BOARD_DIM s + 2)"
    unfolding fresh_def Let_def fresh_connected_def using a by simp
  moreover have "int (length (open_positions (fresh s))) = BOARD_DIM s * BOARD_DIM s"
    unfolding fresh_def Let_def using b by simp
  moreover have "BOARD_DIM (fresh s) = BOARD_DIM s" "neighbors (fresh s) = neighbors s"
    unfolding fresh_def Let_def by simp_all
  ultimately show ?thesis
    unfolding sized_def Let_def using sd(1,5) by simp
qed

lemma fresh_fields [simp]:
  "BOARD_DIM (fresh s) = BOARD_DIM s"
  "moves (fresh s) = []"
  "number_of_open_positions (fresh s) = BOARD_DIM s * BOARD_DIM s"
  "neighbors (fresh s) = neighbors s"
  "board (fresh s) = replicate (nat (2 * (BOARD_DIM s + 2) * (BOARD_DIM s + 2))) 0"
  "open_positions (fresh s) = map (\<lambda>q. padded_of (BOARD_DIM s) (int q)) [0 ..< nat (BOARD_DIM s * BOARD_DIM s)]"
  "connected (fresh s) = fresh_connected (BOARD_DIM s)"
  by (simp_all add: fresh_def Let_def)

lemma valid_fresh:
  assumes s: "sized s" and n1: "1 \<le> BOARD_DIM s"
  shows "valid (fresh s)"
proof -
  define n where "n = BOARD_DIM s"
  have n1': "1 \<le> n" using n1 by (simp add: n_def)
  let ?live = "map (\<lambda>q. padded_of n (int q)) [0 ..< nat (n * n)]"
  have q: "0 \<le> int q \<and> int q < n * n" if "q < nat (n * n)" for q
    using that by simp
  have inj: "inj_on (\<lambda>q. padded_of n (int q)) (set [0 ..< nat (n * n)])"
  proof (rule inj_onI)
    fix x y assume x: "x \<in> set [0 ..< nat (n * n)]" and y: "y \<in> set [0 ..< nat (n * n)]"
      and e: "padded_of n (int x) = padded_of n (int y)"
    from x y have "x < nat (n * n)" "y < nat (n * n)" by simp_all
    then have lx: "logical_of n (padded_of n (int x)) = int x"
      and ly: "logical_of n (padded_of n (int y)) = int y"
      using padded_of_logical(2) [OF n1'] q by blast+
    have "int x = logical_of n (padded_of n (int y))" unfolding e [symmetric] by (rule lx [symmetric])
    then have "int x = int y" by (simp only: ly)
    then show "x = y" by simp
  qed
  have d: "distinct ?live"
    unfolding distinct_map using inj by simp
  have pl: "playable n c" if "c \<in> set ?live" for c
  proof -
    from that obtain x where "x < nat (n * n)" "c = padded_of n (int x)" by auto
    then show ?thesis using padded_of_logical(1) [OF n1'] q by blast
  qed
  have zero: "replicate (nat (2 * (n + 2) * (n + 2))) (0::int) ! nat (c * 2 + p) = 0"
    if "0 \<le> c" "c < (n + 2) * (n + 2)" "p = 0 \<or> p = 1" for c p
  proof -
    define sz where "sz = (n + 2) * (n + 2)"
    have "c * 2 + p < 2 * sz" using that unfolding sz_def [symmetric] by auto
    then have lt: "nat (c * 2 + p) < nat (2 * sz)" using that by auto
    have e: "2 * (n + 2) * (n + 2) = 2 * sz" by (simp add: sz_def)
    show ?thesis unfolding e by (rule nth_replicate [OF lt])
  qed
  have z0: "replicate (nat (2 * (n + 2) * (n + 2))) (0::int) ! nat (c * 2) = 0"
    if "0 \<le> c" "c < (n + 2) * (n + 2)" for c
    using zero [OF that, of 0] by simp
  have z1: "replicate (nat (2 * (n + 2) * (n + 2))) (0::int) ! nat (c * 2 + 1) = 0"
    if "0 \<le> c" "c < (n + 2) * (n + 2)" for c
    using zero [OF that, of 1] by simp
  have tk: "take (nat (n * n)) ?live = ?live" by simp
  show ?thesis
  proof (rule validI)
    show "sized (fresh s)" by (rule sized_fresh [OF s])
    show "1 \<le> BOARD_DIM (fresh s)" using n1 by simp
    show "0 \<le> number_of_open_positions (fresh s)" by simp
    show "number_of_open_positions (fresh s) \<le> BOARD_DIM (fresh s) * BOARD_DIM (fresh s)" by simp
    show "distinct (take (nat (number_of_open_positions (fresh s))) (open_positions (fresh s)))"
      unfolding fresh_fields n_def [symmetric] tk by (rule d)
    show "playable (BOARD_DIM (fresh s)) c \<and> logical_of (BOARD_DIM (fresh s)) c \<notin> set (moves (fresh s))"
      if "c \<in> set (take (nat (number_of_open_positions (fresh s))) (open_positions (fresh s)))" for c
      using that unfolding fresh_fields n_def [symmetric] tk using pl by simp
    show "distinct (moves (fresh s))" by simp
    show "0 \<le> m \<and> m < BOARD_DIM (fresh s) * BOARD_DIM (fresh s)" if "m \<in> set (moves (fresh s))" for m
      using that by simp
    show "x = 0 \<or> x = 1" if "x \<in> set (board (fresh s))" for x
      using that by simp
    show "\<not> (board (fresh s) ! nat (c * 2) = 1 \<and> board (fresh s) ! nat (c * 2 + 1) = 1) \<and>
           ((board (fresh s) ! nat (c * 2) = 1 \<or> board (fresh s) ! nat (c * 2 + 1) = 1)
              \<longleftrightarrow> playable (BOARD_DIM (fresh s)) c \<and> logical_of (BOARD_DIM (fresh s)) c \<in> set (moves (fresh s)))"
      if "0 \<le> c" "c < (BOARD_DIM (fresh s) + 2) * (BOARD_DIM (fresh s) + 2)" for c
      using that z0 [of c] z1 [of c] unfolding fresh_fields n_def [symmetric] by simp
  qed
qed

lemma HexGame_fresh:
  assumes "1 \<le> dim"
  shows "\<exists>s. HexGame dim = Inr s \<and> valid s \<and> BOARD_DIM s = dim \<and> moves s = [] \<and>
           number_of_open_positions s = dim * dim \<and>
           board s = replicate (nat (2 * (dim + 2) * (dim + 2))) 0 \<and>
           connected s = fresh_connected dim"
proof -
  let ?s0 = "\<lparr>BOARD_DIM = dim,
           board = replicate (nat ((dim + 2) * (dim + 2) * 2)) 0,
           open_positions = replicate (nat (dim * dim)) 0,
           number_of_open_positions = 0,
           moves = replicate (nat (dim * dim)) 0,
           connected = replicate (nat ((dim + 2) * (dim + 2) * 2)) 0,
           neighbors = [- (dim + 2) + 1, - (dim + 2), - 1, 1, dim + 2, (dim + 2) - 1]\<rparr>"
  have a: "0 \<le> (dim + 2) * (dim + 2) * 2" using assms by simp
  have s0: "sized ?s0"
    unfolding sized_def Let_def using assms a by (simp add: algebra_simps)
  have "HexGame dim = Inr (fresh ?s0)"
    unfolding HexGame_def by (rule init_fresh [OF s0])
  moreover have "valid (fresh ?s0)"
    by (rule valid_fresh [OF s0]) (use assms in simp)
  ultimately show ?thesis by simp
qed

subsection \<open>\<open>remove_last_n_moves\<close>\<close>

lemma clear_cells_simps [simp]:
  "clear_cells n [] b = b"
  "clear_cells n (m # ms) b =
     clear_cells n ms (b[nat (padded_of n m * 2) := 0, nat (padded_of n m * 2 + 1) := 0])"
  by (simp_all add: clear_cells_def)

lemma length_clear_cells [simp]: "length (clear_cells n ms b) = length b"
  by (induction ms arbitrary: b) simp_all

lemma nth_update_two:
  "k < length b \<Longrightarrow> b[i := (0::int), j := 0] ! k = (if k = i \<or> k = j then 0 else b ! k)"
  by (cases "i = j"; cases "k = i"; cases "k = j") simp_all

lemma nth_clear_cells:
  "k < length b \<Longrightarrow>
   clear_cells n ms b ! k =
     (if \<exists>m \<in> set ms. k = nat (padded_of n m * 2) \<or> k = nat (padded_of n m * 2 + 1)
      then 0 else b ! k)"
proof (induction ms arbitrary: b)
  case Nil
  then show ?case by simp
next
  case (Cons m ms)
  let ?b = "b[nat (padded_of n m * 2) := 0, nat (padded_of n m * 2 + 1) := 0]"
  have l: "k < length ?b" using Cons.prems by simp
  have h: "?b ! k = (if k = nat (padded_of n m * 2) \<or> k = nat (padded_of n m * 2 + 1) then 0 else b ! k)"
    using Cons.prems by (rule nth_update_two)
  show ?case
    unfolding clear_cells_simps Cons.IH [OF l] h by auto
qed

declare remove_step.simps [simp del]

lemma remove_step_result:
  assumes s: "sized s" and n1: "1 \<le> BOARD_DIM s" and ne: "moves s \<noteq> []"
    and m: "0 \<le> last (moves s)" "last (moves s) < BOARD_DIM s * BOARD_DIM s"
  shows "remove_step (rm, s) =
     Inr (rm @ [last (moves s)],
          s\<lparr>moves := butlast (moves s),
            board := (board s)[nat (padded_of (BOARD_DIM s) (last (moves s)) * 2) := 0,
                               nat (padded_of (BOARD_DIM s) (last (moves s)) * 2 + 1) := 0]\<rparr>)"
proof -
  define n where "n = BOARD_DIM s"
  define l where "l = last (moves s)"
  define e where "e = padded_of n l"
  note sd = sizedD [OF s, folded n_def]
  have n0: "0 < n" using n1 by (simp add: n_def)
  have pl: "playable n e"
    unfolding e_def using padded_of_logical(1) [of n l] n1 m by (simp add: n_def l_def)
  note pr = playable_range [OF n1 [folded n_def] pl]
  have d: "c_div l n = Inr (l div n)" using m(1) n0 unfolding l_def by (rule c_div_nonneg)
  have md: "c_mod l n = Inr (l mod n)" using m(1) n0 unfolding l_def by (rule c_mod_nonneg)
  have e': "(l div n + 1) * (n + 2) + (l mod n + 1) = e" by (simp add: e_def padded_of_def)
  have r0: "0 \<le> e * 2" "e * 2 < int (length (board s))"
    using cell_index_range [OF pr _ sd(2), of 0] by simp_all
  have r1: "0 \<le> e * 2 + 1" "e * 2 + 1 < int (length (board s))"
    using cell_index_range [OF pr _ sd(2), of 1] by simp_all
  have p1: "put (board s) (e * 2) 0 = Inr ((board s)[nat (e * 2) := 0])"
    using r0 by (simp add: put_def)
  have p2: "put ((board s)[nat (e * 2) := 0]) (e * 2 + 1) 0
      = Inr ((board s)[nat (e * 2) := 0, nat (e * 2 + 1) := 0])"
    using r1 by (simp add: put_def)
  show ?thesis
    unfolding remove_step.simps n_def [symmetric] l_def [symmetric] Let_def d md ebind_Inr e' p1 p2
      e_def [symmetric]
    using ne by simp
qed

lemma remove_loop_result:
  assumes "sized s" and "1 \<le> BOARD_DIM s"
    and "\<And>m. m \<in> set (moves s) \<Longrightarrow> 0 \<le> m \<and> m < BOARD_DIM s * BOARD_DIM s"
    and "length xs \<le> length (moves s)"
  shows "for_each xs (\<lambda>i. remove_step) (rm, s) =
     Inr (rm @ rev (drop (length (moves s) - length xs) (moves s)),
          s\<lparr>moves := take (length (moves s) - length xs) (moves s),
            board := clear_cells (BOARD_DIM s)
                       (rev (drop (length (moves s) - length xs) (moves s))) (board s)\<rparr>)"
  using assms
proof (induction xs arbitrary: rm s)
  case Nil
  then show ?case by simp
next
  case (Cons x xs)
  from Cons.prems(4) have ne: "moves s \<noteq> []" by auto
  define n where "n = BOARD_DIM s"
  define l where "l = last (moves s)"
  define ms where "ms = butlast (moves s)"
  have msl: "moves s = ms @ [l]" using ne by (simp add: ms_def l_def)
  have lin: "l \<in> set (moves s)" using ne by (simp add: l_def)
  from Cons.prems(3) [OF lin] have lr: "0 \<le> l" "l < n * n" by (simp_all add: n_def)
  define s1 where "s1 = s\<lparr>moves := ms,
            board := (board s)[nat (padded_of n l * 2) := 0, nat (padded_of n l * 2 + 1) := 0]\<rparr>"
  have step: "remove_step (rm, s) = Inr (rm @ [l], s1)"
    using remove_step_result [OF Cons.prems(1,2) ne, of rm] lr
    unfolding n_def l_def s1_def ms_def by simp
  have sz1: "sized s1" using Cons.prems(1) by (simp add: sized_def s1_def Let_def)
  have n1: "1 \<le> BOARD_DIM s1" using Cons.prems(2) by (simp add: s1_def)
  have mr: "0 \<le> m \<and> m < BOARD_DIM s1 * BOARD_DIM s1" if "m \<in> set (moves s1)" for m
    using that Cons.prems(3) [of m] by (simp add: s1_def msl)
  have len: "length xs \<le> length (moves s1)" using Cons.prems(4) by (simp add: s1_def msl)
  have k: "length (moves s) - length (x # xs) = length ms - length xs"
    by (simp add: msl)
  have kl: "length ms - length xs \<le> length ms" by simp
  have dr: "drop (length ms - length xs) (ms @ [l]) = drop (length ms - length xs) ms @ [l]"
    using kl by simp
  have tk: "take (length ms - length xs) (ms @ [l]) = take (length ms - length xs) ms"
    using kl by simp
  have s1f: "moves s1 = ms" "BOARD_DIM s1 = n"
    "board s1 = (board s)[nat (padded_of n l * 2) := 0, nat (padded_of n l * 2 + 1) := 0]"
    by (simp_all add: s1_def n_def)
  have "for_each (x # xs) (\<lambda>i. remove_step) (rm, s)
      = for_each xs (\<lambda>i. remove_step) (rm @ [l], s1)"
    by (simp add: step)
  also have "\<dots> = Inr ((rm @ [l]) @ rev (drop (length ms - length xs) ms),
          s1\<lparr>moves := take (length ms - length xs) ms,
             board := clear_cells n (rev (drop (length ms - length xs) ms)) (board s1)\<rparr>)"
    using Cons.IH [OF sz1 n1 mr len, of "rm @ [l]"] unfolding s1f .
  also have "\<dots> = Inr (rm @ rev (drop (length (moves s) - length (x # xs)) (moves s)),
          s\<lparr>moves := take (length (moves s) - length (x # xs)) (moves s),
            board := clear_cells (BOARD_DIM s)
                       (rev (drop (length (moves s) - length (x # xs)) (moves s))) (board s)\<rparr>)"
    unfolding k unfolding msl dr tk n_def [symmetric] by (simp add: s1_def)
  finally show ?case .
qed

lemma remove_loop_exhausted:
  assumes "sized s" and "1 \<le> BOARD_DIM s"
    and "\<And>m. m \<in> set (moves s) \<Longrightarrow> 0 \<le> m \<and> m < BOARD_DIM s * BOARD_DIM s"
    and "length (moves s) < length xs"
  shows "for_each xs (\<lambda>i. remove_step) (rm, s) = Inl BackOfEmpty"
  using assms
proof (induction xs arbitrary: rm s)
  case Nil
  then show ?case by simp
next
  case (Cons x xs)
  show ?case
  proof (cases "moves s = []")
    case True
    then show ?thesis by (simp add: remove_step.simps)
  next
    case ne: False
    define n where "n = BOARD_DIM s"
    define l where "l = last (moves s)"
    define ms where "ms = butlast (moves s)"
    have msl: "moves s = ms @ [l]" using ne by (simp add: ms_def l_def)
    have lin: "l \<in> set (moves s)" using ne by (simp add: l_def)
    from Cons.prems(3) [OF lin] have lr: "0 \<le> l" "l < n * n" by (simp_all add: n_def)
    define s1 where "s1 = s\<lparr>moves := ms,
            board := (board s)[nat (padded_of n l * 2) := 0, nat (padded_of n l * 2 + 1) := 0]\<rparr>"
    have step: "remove_step (rm, s) = Inr (rm @ [l], s1)"
      using remove_step_result [OF Cons.prems(1,2) ne, of rm] lr
      unfolding n_def l_def s1_def ms_def by simp
    have sz1: "sized s1" using Cons.prems(1) by (simp add: sized_def s1_def Let_def)
    have n1: "1 \<le> BOARD_DIM s1" using Cons.prems(2) by (simp add: s1_def)
    have mr: "0 \<le> m \<and> m < BOARD_DIM s1 * BOARD_DIM s1" if "m \<in> set (moves s1)" for m
      using that Cons.prems(3) [of m] by (simp add: s1_def msl)
    have len: "length (moves s1) < length xs" using Cons.prems(4) by (simp add: s1_def msl)
    show ?thesis
      unfolding for_each.simps step ebind_Inr by (rule Cons.IH [OF sz1 n1 mr len])
  qed
qed

subsection \<open>\<open>connect\<close> and \<open>winner\<close> only set marks\<close>

declare connect.simps [simp del]

lemma only_marks_refl: "only_marks p s s"
  by (simp add: only_marks_def)

lemma only_marks_trans:
  assumes "only_marks p s t" "only_marks p t u"
  shows "only_marks p s u"
proof -
  from assms have e: "t = s\<lparr>connected := connected t\<rparr>" "u = t\<lparr>connected := connected u\<rparr>"
    and l: "length (connected t) = length (connected s)" "length (connected u) = length (connected t)"
    by (simp_all add: only_marks_def)
  have "u = s\<lparr>connected := connected u\<rparr>"
    by (subst e(2), subst e(1)) simp
  moreover have "connected u ! i = connected s ! i \<or> (connected u ! i = 1 \<and> (\<exists>c. int i = c * 2 + p))"
    if "i < length (connected s)" for i
  proof -
    from that l have "i < length (connected t)" by simp
    with assms(2) have "connected u ! i = connected t ! i \<or> (connected u ! i = 1 \<and> (\<exists>c. int i = c * 2 + p))"
      unfolding only_marks_def by blast
    moreover from assms(1) that
    have "connected t ! i = connected s ! i \<or> (connected t ! i = 1 \<and> (\<exists>c. int i = c * 2 + p))"
      unfolding only_marks_def by blast
    ultimately show ?thesis by auto
  qed
  ultimately show ?thesis using l by (simp add: only_marks_def)
qed

lemma only_marks_put:
  assumes "put (connected s) (pos * 2 + p) 1 = Inr c"
  shows "only_marks p s (s\<lparr>connected := c\<rparr>)"
proof -
  from assms have r: "0 \<le> pos * 2 + p" "pos * 2 + p < int (length (connected s))"
    and c: "c = (connected s)[nat (pos * 2 + p) := 1]"
    by (simp_all add: put_eq_Inr)
  have "c ! i = connected s ! i \<or> (c ! i = 1 \<and> (\<exists>d. int i = d * 2 + p))"
    if "i < length (connected s)" for i
  proof (cases "i = nat (pos * 2 + p)")
    case True
    then have "int i = pos * 2 + p" using r by simp
    moreover have "c ! i = 1" using True that by (simp add: c)
    ultimately show ?thesis by blast
  next
    case False
    then show ?thesis by (simp add: c)
  qed
  then show ?thesis by (simp add: only_marks_def c)
qed

lemma connect_only_marks:
  "connect p pos s = Inr (r, s') \<Longrightarrow> only_marks p s s' \<and> (r = 0 \<or> r = 1)"
  "connect_loop p pos is s = Inr (r, s') \<Longrightarrow> only_marks p s s' \<and> (r = 0 \<or> r = 1)"
proof (induction p pos s and p pos "is" s arbitrary: r s' and r s' rule: connect_connect_loop.induct)
  case (1 player position s)
  note run = "1.prems" [unfolded connect.simps [of player position s]]
  from run obtain c where c: "put (connected s) (position * 2 + player) 1 = Inr c"
    by (auto simp: ebind_eq_Inr)
  let ?s1 = "s\<lparr>connected := c\<rparr>"
  have m1: "only_marks player s ?s1" by (rule only_marks_put [OF c])
  from run c obtain g0 where g0: "on_last_row player position ?s1 = Inr g0"
    by (auto simp: ebind_eq_Inr Let_def)
  show ?case
  proof (cases g0)
    case True
    with run c g0 have "r = 1" "s' = ?s1" by (simp_all add: Let_def)
    with m1 show ?thesis by simp
  next
    case ng0: False
    with run c g0 obtain g1 where g1: "on_last_column player position ?s1 = Inr g1"
      by (auto simp: ebind_eq_Inr Let_def)
    show ?thesis
    proof (cases g1)
      case True
      with run c g0 g1 ng0 have "r = 1" "s' = ?s1" by (simp_all add: Let_def)
      with m1 show ?thesis by simp
    next
      case ng1: False
      with run c g0 g1 ng0 have "connect_loop player position [0, 1, 2, 3, 4, 5] ?s1 = Inr (r, s')"
        by (simp add: Let_def)
      from "1.IH" [OF c refl g0 ng0 g1 ng1 this] m1 show ?thesis
        by (auto intro: only_marks_trans)
    qed
  qed
next
  case (2 player position s)
  then show ?case by (simp add: only_marks_refl)
next
  case (3 player position i "is" s)
  from "3.prems" obtain d b where d: "at (neighbors s) i = Inr d"
    and b: "at (board s) ((position + d) * 2 + player) = Inr b"
    by (auto simp: ebind_eq_Inr Let_def)
  let ?nb = "position + d"
  show ?case
  proof (cases "b \<noteq> 0")
    case False
    with "3.prems" d b have "connect_loop player position is s = Inr (r, s')" by simp
    from "3.IH"(4) [OF d refl b False this] show ?thesis .
  next
    case True
    with "3.prems" d b obtain m where m: "at (connected s) (?nb * 2 + player) = Inr m"
      by (auto simp: ebind_eq_Inr Let_def)
    show ?thesis
    proof (cases "m = 0")
      case False
      with "3.prems" d b m True have "connect_loop player position is s = Inr (r, s')" by simp
      from "3.IH"(3) [OF d refl b True m False this] show ?thesis .
    next
      case m0: True
      with "3.prems" d b m True obtain r1 s1 where c: "connect player ?nb s = Inr (r1, s1)"
        by (auto simp: ebind_eq_Inr Let_def)
      from "3.IH"(1) [OF d refl b True m m0 c] have m1: "only_marks player s s1" by simp
      show ?thesis
      proof (cases "r1 \<noteq> 0")
        case True
        with "3.prems" d b m \<open>b \<noteq> 0\<close> m0 c have "s' = s1" "r = 1" by simp_all
        with m1 show ?thesis by simp
      next
        case False
        with "3.prems" d b m \<open>b \<noteq> 0\<close> m0 c have "connect_loop player position is s1 = Inr (r, s')"
          by simp
        from "3.IH"(2) [OF d refl b \<open>b \<noteq> 0\<close> m m0 c refl False this] m1 show ?thesis
          by (auto intro: only_marks_trans)
      qed
    qed
  qed
qed

lemma winner_loop_only_marks:
  "winner_loop p pos is s = Inr (r, s') \<Longrightarrow> only_marks p s s' \<and> (r = 0 \<or> r = 1)"
proof (induction "is")
  case Nil
  then show ?case by (simp add: only_marks_refl)
next
  case (Cons i "is")
  from Cons.prems obtain d m where d: "at (neighbors s) i = Inr d"
    and m: "at (connected s) ((pos + d) * 2 + p) = Inr m"
    by (auto simp: ebind_eq_Inr Let_def)
  show ?case
  proof (cases "m \<noteq> 0")
    case True
    with Cons.prems d m have "connect p pos s = Inr (r, s')" by simp
    then show ?thesis by (rule connect_only_marks(1))
  next
    case False
    with Cons.prems d m have "winner_loop p pos is s = Inr (r, s')" by simp
    then show ?thesis by (rule Cons.IH)
  qed
qed

lemma winner_only_marks:
  "winner p pos s = Inr (r, s') \<Longrightarrow> only_marks p s s' \<and> (r = 0 \<or> r = 1)"
  unfolding winner_def by (rule winner_loop_only_marks)

subsection \<open>Validity is preserved\<close>

lemma valid_only_marks:
  assumes v: "valid s" and m: "only_marks p s s'"
  shows "valid s'"
proof -
  from m have e: "s' = s\<lparr>connected := connected s'\<rparr>"
    and l: "length (connected s') = length (connected s)"
    by (simp_all add: only_marks_def)
  have f: "BOARD_DIM s' = BOARD_DIM s" "board s' = board s" "open_positions s' = open_positions s"
    "number_of_open_positions s' = number_of_open_positions s" "moves s' = moves s"
    "neighbors s' = neighbors s"
    by (subst e, simp)+
  have sz: "sized s'"
    using validD(1) [OF v] unfolding sized_def Let_def f l by simp
  show ?thesis
    using v sz unfolding valid_def Let_def f by simp
qed

lemma for_each_preserves:
  assumes "\<And>x t t'. P t \<Longrightarrow> body x t = Inr t' \<Longrightarrow> P t'"
    and "P s" and "for_each xs body s = Inr s'"
  shows "P s'"
  using assms(2,3)
proof (induction xs arbitrary: s)
  case Nil
  then show ?case by simp
next
  case (Cons x xs)
  from Cons.prems(2) obtain t where t: "body x s = Inr t" "for_each xs body t = Inr s'"
    by (auto simp: ebind_eq_Inr)
  from assms(1) [OF Cons.prems(1) t(1)] have "P t" .
  then show ?case using t(2) by (rule Cons.IH)
qed

lemma set_update_two:
  "x \<in> set (b[i := v, j := v]) \<Longrightarrow> x = v \<or> x \<in> set b"
  using set_update_subset_insert [of "b[i := v]" j v] set_update_subset_insert [of b i v]
  by auto

lemma valid_remove_step:
  assumes v: "valid s" and r: "remove_step (rm, s) = Inr (rm', s')"
  shows "valid s'"
proof -
  define n where "n = BOARD_DIM s"
  note vd = validD [OF v, folded n_def]
  from r have ne: "moves s \<noteq> []" by (auto simp: remove_step.simps)
  define l where "l = last (moves s)"
  define ms where "ms = butlast (moves s)"
  define e where "e = padded_of n l"
  define b' where "b' = (board s)[nat (e * 2) := 0, nat (e * 2 + 1) := 0]"
  have msl: "moves s = ms @ [l]" using ne by (simp add: ms_def l_def)
  have lin: "l \<in> set (moves s)" using ne by (simp add: l_def)
  from vd(8) [OF lin] have lr: "0 \<le> l" "l < n * n" by simp_all
  have s': "s' = s\<lparr>moves := ms, board := b'\<rparr>"
    using remove_step_result [OF vd(1) vd(2) [unfolded n_def] ne, of rm] lr r
    unfolding n_def l_def ms_def b'_def e_def by simp
  have f: "BOARD_DIM s' = n" "board s' = b'" "open_positions s' = open_positions s"
    "number_of_open_positions s' = number_of_open_positions s" "moves s' = ms"
    "neighbors s' = neighbors s" "connected s' = connected s"
    by (simp_all add: s' n_def)
  have pe: "playable n e" and le: "logical_of n e = l"
    unfolding e_def using padded_of_logical [OF vd(2) lr] by simp_all
  note er = playable_range [OF vd(2) pe]
  have lb: "length b' = length (board s)" by (simp add: b'_def)
  have dm: "distinct ms" and lnm: "l \<notin> set ms" using vd(7) unfolding msl by simp_all
  show ?thesis
  proof (rule validI)
    show "sized s'"
      using vd(1) unfolding sized_def Let_def f lb n_def [symmetric] by simp
    show "1 \<le> BOARD_DIM s'" unfolding f by (rule vd(2))
    show "0 \<le> number_of_open_positions s'" unfolding f by (rule vd(3))
    show "number_of_open_positions s' \<le> BOARD_DIM s' * BOARD_DIM s'" unfolding f by (rule vd(4))
    show "distinct (take (nat (number_of_open_positions s')) (open_positions s'))"
      unfolding f by (rule vd(5))
    show "playable (BOARD_DIM s') c \<and> logical_of (BOARD_DIM s') c \<notin> set (moves s')"
      if "c \<in> set (take (nat (number_of_open_positions s')) (open_positions s'))" for c
      using vd(6) [of c] that unfolding f msl by simp
    show "distinct (moves s')" unfolding f by (rule dm)
    show "0 \<le> m \<and> m < BOARD_DIM s' * BOARD_DIM s'" if "m \<in> set (moves s')" for m
      using vd(8) [of m] that unfolding f msl by simp
    show "x = 0 \<or> x = 1" if "x \<in> set (board s')" for x
      using set_update_two [of x "board s" "nat (e * 2)" 0 "nat (e * 2 + 1)"] that vd(9) [of x]
      unfolding f b'_def by blast
    show "\<not> (board s' ! nat (c * 2) = 1 \<and> board s' ! nat (c * 2 + 1) = 1) \<and>
           ((board s' ! nat (c * 2) = 1 \<or> board s' ! nat (c * 2 + 1) = 1)
              \<longleftrightarrow> playable (BOARD_DIM s') c \<and> logical_of (BOARD_DIM s') c \<in> set (moves s'))"
      if c: "0 \<le> c" "c < (BOARD_DIM s' + 2) * (BOARD_DIM s' + 2)" for c
    proof -
      from c have c': "c < (n + 2) * (n + 2)" by (simp add: f)
      note old = vd(10) [OF c(1) c']
      have i0: "nat (c * 2) < length (board s)" and i1: "nat (c * 2 + 1) < length (board s)"
        using cell_index_range [OF c(1) c' _ sizedD(2) [OF vd(1), folded n_def], of 0]
              cell_index_range [OF c(1) c' _ sizedD(2) [OF vd(1), folded n_def], of 1]
        by simp_all
      show ?thesis
      proof (cases "c = e")
        case True
        have "b' ! nat (c * 2) = 0" "b' ! nat (c * 2 + 1) = 0"
          unfolding b'_def using i0 i1 True by (simp_all add: nth_update_two)
        moreover have "logical_of n c \<notin> set ms" using True le lnm by simp
        ultimately show ?thesis unfolding f by simp
      next
        case False
        have ne0: "nat (c * 2) \<noteq> nat (e * 2)" "nat (c * 2) \<noteq> nat (e * 2 + 1)"
          "nat (c * 2 + 1) \<noteq> nat (e * 2)" "nat (c * 2 + 1) \<noteq> nat (e * 2 + 1)"
          using False c(1) er(1) by (simp_all add: nat_eq_iff)
        have same: "b' ! nat (c * 2) = board s ! nat (c * 2)"
          "b' ! nat (c * 2 + 1) = board s ! nat (c * 2 + 1)"
          unfolding b'_def using i0 i1 ne0 by (simp_all add: nth_update_two)
        have "logical_of n c \<noteq> l" if "playable n c"
        proof
          assume "logical_of n c = l"
          then have "padded_of n (logical_of n c) = e" by (simp add: e_def)
          with logical_of_playable(3) [OF vd(2) that] False show False by simp
        qed
        then have "playable n c \<and> logical_of n c \<in> set (moves s)
            \<longleftrightarrow> playable n c \<and> logical_of n c \<in> set ms"
          unfolding msl by auto
        with old show ?thesis unfolding f same by simp
      qed
    qed
  qed
qed

lemma valid_remove:
  assumes v: "valid s" and r: "remove_last_n_moves n s = Inr (removed, s')"
  shows "valid s'"
proof -
  have "valid (snd (removed, s'))"
  proof (rule for_each_preserves [where P = "\<lambda>t. valid (snd t)" and body = "\<lambda>i. remove_step"])
    show "valid (snd t')" if "valid (snd t)" "remove_step t = Inr t'" for x t t'
      using that valid_remove_step [of "snd t" "fst t" "fst t'" "snd t'"] by simp
    show "valid (snd ([], s))" using v by simp
    show "for_each [0 ..< nat n] (\<lambda>i. remove_step) ([], s) = Inr (removed, s')"
      using r by (simp add: remove_last_n_moves_def)
  qed
  then show ?thesis by simp
qed

lemma place_needs_open:
  assumes v: "valid s" and r: "place_piece_randomly rand player s = Inr (pos, s')"
  shows "0 < number_of_open_positions s"
proof (rule ccontr)
  assume "\<not> 0 < number_of_open_positions s"
  with validD(3) [OF v] have "number_of_open_positions s = 0" by simp
  then have "place_piece_randomly rand player s = Inl DivisionByZero"
    by (simp add: place_piece_randomly_def c_mod_def)
  with r show False by simp
qed

lemma valid_place:
  assumes v: "valid s" and rnd: "0 \<le> rand" and p: "player = 0 \<or> player = 1"
    and r: "place_piece_randomly rand player s = Inr (pos, s')"
  shows "valid s'"
proof -
  define n where "n = BOARD_DIM s"
  define cnt where "cnt = number_of_open_positions s"
  define idx where "idx = rand mod cnt"
  define xs where "xs = open_positions s"
  define k where "k = nat cnt"
  define i where "i = nat idx"
  note vd = validD [OF v, folded n_def cnt_def xs_def k_def]
  note sd = sizedD [OF vd(1), folded n_def xs_def]
  have cnt: "0 < cnt" using place_needs_open [OF v r] by (simp add: cnt_def)
  have idx: "0 \<le> idx" "idx < cnt" using cnt by (simp_all add: idx_def)
  have ik: "i < k" using idx by (simp add: i_def k_def)
  have "int k \<le> int (length xs)" using vd(4) cnt sd(4) by (simp add: k_def)
  then have kl: "k \<le> length xs" by simp
  have k1: "nat (cnt - 1) = k - 1" by (simp add: k_def)
  note res = place_result [OF v cnt [unfolded cnt_def] rnd p]
  define l where "l = logical_of n (xs ! i)"
  define b' where "b' = (board s)[nat (xs ! i * 2 + player) := 1]"
  define xs' where "xs' = xs[i := xs ! (k - 1)]"
  have "place_piece_randomly rand player s
      = Inr (xs ! i, s\<lparr>board := b', moves := moves s @ [l], open_positions := xs',
                    number_of_open_positions := cnt - 1\<rparr>)"
    unfolding l_def b'_def xs'_def i_def idx_def cnt_def xs_def n_def k1 [symmetric]
    by (rule res(1))
  then have pos: "pos = xs ! i"
    and s': "s' = s\<lparr>board := b', moves := moves s @ [l], open_positions := xs',
                    number_of_open_positions := cnt - 1\<rparr>"
    unfolding r by simp_all
  have f: "BOARD_DIM s' = n" "board s' = b'" "open_positions s' = xs'"
    "number_of_open_positions s' = cnt - 1" "moves s' = moves s @ [l]"
    "neighbors s' = neighbors s" "connected s' = connected s"
    by (simp_all add: s' n_def)
  have live: "pos \<in> set (take k xs)"
    unfolding pos k_def i_def idx_def cnt_def xs_def by (rule res(2))
  from vd(6) [OF live] have pl: "playable n pos" and lnm: "l \<notin> set (moves s)"
    by (simp_all add: l_def pos)
  note pr = playable_range [OF vd(2) pl]
  have lp: "0 \<le> l" "l < n * n"
    using logical_of_playable(1,2) [OF vd(2) pl] by (simp_all add: l_def pos)
  have lb: "length b' = length (board s)" by (simp add: b'_def)
  have lx: "length xs' = length xs" by (simp add: xs'_def)
  note sw = swap_remove_live [OF vd(5) ik kl, folded xs'_def]
  show ?thesis
  proof (rule validI)
    show "sized s'"
      using vd(1) unfolding sized_def Let_def f lb lx n_def [symmetric] xs_def [symmetric] by simp
    show "1 \<le> BOARD_DIM s'" unfolding f by (rule vd(2))
    show "0 \<le> number_of_open_positions s'" unfolding f using cnt by simp
    show "number_of_open_positions s' \<le> BOARD_DIM s' * BOARD_DIM s'"
      unfolding f using vd(4) by simp
    show "distinct (take (nat (number_of_open_positions s')) (open_positions s'))"
      unfolding f k1 by (rule sw(1))
    show "playable (BOARD_DIM s') c \<and> logical_of (BOARD_DIM s') c \<notin> set (moves s')"
      if "c \<in> set (take (nat (number_of_open_positions s')) (open_positions s'))" for c
    proof -
      from that have c: "c \<in> set (take k xs)" "c \<noteq> pos"
        unfolding f k1 sw(2) pos by simp_all
      from vd(6) [OF c(1)] have pc: "playable n c" and "logical_of n c \<notin> set (moves s)"
        by simp_all
      moreover have "logical_of n c \<noteq> l"
        using logical_of_inj [OF vd(2) pc pl] c(2) unfolding l_def pos by blast
      ultimately show ?thesis unfolding f by simp
    qed
    show "distinct (moves s')" unfolding f using vd(7) lnm by simp
    show "0 \<le> m \<and> m < BOARD_DIM s' * BOARD_DIM s'" if "m \<in> set (moves s')" for m
      using vd(8) [of m] that lp(1,2) unfolding f by auto
    show "x = 0 \<or> x = 1" if "x \<in> set (board s')" for x
      using set_update_subset_insert [of "board s" "nat (xs ! i * 2 + player)" 1] that vd(9) [of x]
      unfolding f b'_def by blast
    show "\<not> (board s' ! nat (c * 2) = 1 \<and> board s' ! nat (c * 2 + 1) = 1) \<and>
           ((board s' ! nat (c * 2) = 1 \<or> board s' ! nat (c * 2 + 1) = 1)
              \<longleftrightarrow> playable (BOARD_DIM s') c \<and> logical_of (BOARD_DIM s') c \<in> set (moves s'))"
      if c: "0 \<le> c" "c < (BOARD_DIM s' + 2) * (BOARD_DIM s' + 2)" for c
    proof -
      from c have c': "c < (n + 2) * (n + 2)" by (simp add: f)
      note old = vd(10) [OF c(1) c']
      have i0: "nat (c * 2) < length (board s)" and i1: "nat (c * 2 + 1) < length (board s)"
        using cell_index_range [OF c(1) c' _ sd(2), of 0]
              cell_index_range [OF c(1) c' _ sd(2), of 1]
        by simp_all
      show ?thesis
      proof (cases "c = pos")
        case True
        from old lnm have z: "board s ! nat (c * 2) \<noteq> 1" "board s ! nat (c * 2 + 1) \<noteq> 1"
          unfolding True l_def pos by auto
        have "b' ! nat (c * 2 + player) = 1"
          using p i0 i1 unfolding b'_def pos [symmetric] True by auto
        moreover have "b' ! nat (c * 2 + (1 - player)) = board s ! nat (c * 2 + (1 - player))"
          using p c(1) unfolding b'_def pos [symmetric] True by (auto simp: nat_eq_iff)
        ultimately have "\<not> (b' ! nat (c * 2) = 1 \<and> b' ! nat (c * 2 + 1) = 1)"
          and "b' ! nat (c * 2) = 1 \<or> b' ! nat (c * 2 + 1) = 1"
          using p z True by auto
        moreover have "playable n c \<and> logical_of n c \<in> set (moves s @ [l])"
          using pl True by (simp add: l_def pos)
        ultimately show ?thesis unfolding f by blast
      next
        case False
        have ne0: "nat (c * 2) \<noteq> nat (pos * 2 + player)" "nat (c * 2 + 1) \<noteq> nat (pos * 2 + player)"
          using False c(1) pr(1) p by (auto simp: nat_eq_iff)
        have same: "b' ! nat (c * 2) = board s ! nat (c * 2)"
          "b' ! nat (c * 2 + 1) = board s ! nat (c * 2 + 1)"
          unfolding b'_def pos [symmetric] using ne0 by simp_all
        have "logical_of n c \<noteq> l" if "playable n c"
          using logical_of_inj [OF vd(2) that pl] False unfolding l_def pos by blast
        then have "playable n c \<and> logical_of n c \<in> set (moves s)
            \<longleftrightarrow> playable n c \<and> logical_of n c \<in> set (moves s @ [l])"
          by auto
        with old show ?thesis unfolding f same by simp
      qed
    qed
  qed
qed

subsection \<open>Invariants of reachable objects\<close>

lemma HexGame_2: "HexGame 2 = Inr game2"
  by code_simp

lemma remove_result:
  assumes v: "valid s"
  shows "remove_last_n_moves n s =
    (if nat n \<le> length (moves s)
     then Inr (rev (drop (length (moves s) - nat n) (moves s)),
               s\<lparr>moves := take (length (moves s) - nat n) (moves s),
                 board := clear_cells (BOARD_DIM s)
                            (rev (drop (length (moves s) - nat n) (moves s))) (board s)\<rparr>)
     else Inl BackOfEmpty)"
proof (cases "nat n \<le> length (moves s)")
  case True
  then have l: "length [0 ..< nat n] \<le> length (moves s)" by simp
  show ?thesis
    using remove_loop_result [OF validD(1,2) [OF v] validD(8) [OF v] l, of "[]"] True
    by (simp add: remove_last_n_moves_def)
next
  case False
  then have l: "length (moves s) < length [0 ..< nat n]" by simp
  show ?thesis
    using remove_loop_exhausted [OF validD(1,2) [OF v] validD(8) [OF v] l, of "[]"] False
    by (simp add: remove_last_n_moves_def)
qed

lemma reachable_valid: "reachable s u \<Longrightarrow> valid s"
proof (induction rule: reachable.induct)
  case (constructed dim s)
  with HexGame_fresh [of dim] show ?case by auto
next
  case (reinit s u s')
  from validD(1,2) [OF reinit.IH] init_fresh [of s] valid_fresh [of s] reinit.hyps(2)
  show ?case by simp
next
  case (placed s u player rand pos s')
  from valid_place [OF placed.IH placed.hyps(3,2,4)] show ?case .
next
  case (checked s u player position r s')
  from winner_only_marks [OF checked.hyps(3)] valid_only_marks [OF checked.IH]
  show ?case by blast
next
  case (undone s u n removed s')
  from valid_remove [OF undone.IH undone.hyps(2)] show ?case .
qed

lemma reachable_count:
  "reachable s u \<Longrightarrow>
     number_of_open_positions s + int (length (moves s)) + int u = BOARD_DIM s * BOARD_DIM s"
proof (induction rule: reachable.induct)
  case (constructed dim s)
  with HexGame_fresh [of dim] show ?case by auto
next
  case (reinit s u s')
  from validD(1) [OF reachable_valid [OF reinit.hyps(1)]] init_fresh [of s] reinit.hyps(2)
  have "s' = fresh s" by simp
  then show ?case by simp
next
  case (placed s u player rand pos s')
  note v = reachable_valid [OF placed.hyps(1)]
  from place_result(1) [OF v place_needs_open [OF v placed.hyps(4)] placed.hyps(3,2)] placed.hyps(4)
  have "number_of_open_positions s' = number_of_open_positions s - 1"
    "length (moves s') = length (moves s) + 1" "BOARD_DIM s' = BOARD_DIM s"
    by auto
  with placed.IH show ?case by simp
next
  case (checked s u player position r s')
  from winner_only_marks [OF checked.hyps(3)] have "s' = s\<lparr>connected := connected s'\<rparr>"
    by (simp add: only_marks_def)
  then have "number_of_open_positions s' = number_of_open_positions s"
    "moves s' = moves s" "BOARD_DIM s' = BOARD_DIM s"
    by (metis hexgame.select_convs hexgame.surjective hexgame.update_convs)+
  with checked.IH show ?case by simp
next
  case (undone s u n removed s')
  note v = reachable_valid [OF undone.hyps(1)]
  from remove_result [OF v, of n] undone.hyps(2)
  have le: "nat n \<le> length (moves s)"
    and "removed = rev (drop (length (moves s) - nat n) (moves s))"
    and "s' = s\<lparr>moves := take (length (moves s) - nat n) (moves s),
                 board := clear_cells (BOARD_DIM s)
                            (rev (drop (length (moves s) - nat n) (moves s))) (board s)\<rparr>"
    by (auto split: if_splits)
  then have "number_of_open_positions s' = number_of_open_positions s"
    "length (moves s') = length (moves s) - nat n" "BOARD_DIM s' = BOARD_DIM s"
    "length removed = nat n"
    by simp_all
  with undone.IH le show ?case by simp
qed

subsection \<open>The example objects are reachable\<close>

lemma HexGame_1: "HexGame 1 = Inr game1"
  by code_simp

lemma place_game2: "place_piece_randomly 0 0 game2 = Inr (5, game2_first)"
  by code_simp

lemma place_game2_first: "place_piece_randomly 0 1 game2_first = Inr (10, game2_second)"
  by code_simp

lemma remove_game2_second: "remove_last_n_moves 2 game2_second = Inr ([3, 0], game2_rewound)"
  by code_simp

lemma place_game1: "place_piece_randomly 0 0 game1 = Inr (4, game1_full)"
  by code_simp

lemma reachable_game2: "reachable game2 0"
  by (rule reachable.constructed [OF _ HexGame_2]) simp

lemma reachable_game2_first: "reachable game2_first 0"
  by (rule reachable.placed [OF reachable_game2 _ _ place_game2]) simp_all

lemma reachable_game2_second: "reachable game2_second 0"
  by (rule reachable.placed [OF reachable_game2_first _ _ place_game2_first]) simp_all

lemma reachable_game2_rewound: "reachable game2_rewound 2"
  using reachable.undone [OF reachable_game2_second remove_game2_second]
  by (simp add: numeral_2_eq_2)

lemma reachable_game1: "reachable game1 0"
  by (rule reachable.constructed [OF _ HexGame_1]) simp

lemma reachable_game1_full: "reachable game1_full 0"
  by (rule reachable.placed [OF reachable_game1 _ _ place_game1]) simp_all

lemma winner_game2_first: "winner 0 5 game2_first = Inr (0, game2_first_marked)"
  by code_simp

lemma place_game2_first_marked: "place_piece_randomly 2 0 game2_first_marked = Inr (9, game2_column)"
  by code_simp

lemma winner_game2_column: "winner 0 9 game2_column = Inr (1, game2_won)"
  by code_simp

lemma remove_game2_won: "remove_last_n_moves 1 game2_won = Inr ([2], game2_won_rewound)"
  by code_simp

lemma winner_game2_second: "winner 1 10 game2_second = Inr (0, game2_second)"
  by code_simp

lemma reachable_game2_first_marked: "reachable game2_first_marked 0"
  by (rule reachable.checked [OF reachable_game2_first _ winner_game2_first]) simp

lemma reachable_game2_column: "reachable game2_column 0"
  by (rule reachable.placed [OF reachable_game2_first_marked _ _ place_game2_first_marked]) simp_all

lemma reachable_game2_won: "reachable game2_won 0"
  by (rule reachable.checked [OF reachable_game2_column _ winner_game2_column]) simp

subsection \<open>Marks along the calls of a game\<close>

lemma only_marksD:
  assumes "only_marks p s s'"
  shows "BOARD_DIM s' = BOARD_DIM s" "board s' = board s" "open_positions s' = open_positions s"
    "number_of_open_positions s' = number_of_open_positions s" "moves s' = moves s"
    "neighbors s' = neighbors s" "length (connected s') = length (connected s)"
    and "\<And>i. i < length (connected s) \<Longrightarrow>
           connected s' ! i = connected s ! i \<or>
           (connected s' ! i = 1 \<and> (\<exists>c. int i = c * 2 + p))"
proof -
  from assms have e: "s' = s\<lparr>connected := connected s'\<rparr>"
    by (simp add: only_marks_def)
  show "BOARD_DIM s' = BOARD_DIM s" "board s' = board s" "open_positions s' = open_positions s"
    "number_of_open_positions s' = number_of_open_positions s" "moves s' = moves s"
    "neighbors s' = neighbors s"
    by (subst e, simp)+
  from assms show "length (connected s') = length (connected s)"
    by (simp add: only_marks_def)
  from assms show "\<And>i. i < length (connected s) \<Longrightarrow>
           connected s' ! i = connected s ! i \<or>
           (connected s' ! i = 1 \<and> (\<exists>c. int i = c * 2 + p))"
    by (simp add: only_marks_def)
qed

lemma place_connected:
  assumes "place_piece_randomly rand player s = Inr (pos, s')"
  shows "connected s' = connected s" and "BOARD_DIM s' = BOARD_DIM s"
  using assms unfolding place_piece_randomly_def Let_def
  by (auto simp: ebind_eq_Inr)

lemma remove_step_connected:
  assumes "remove_step (rm, s) = Inr (rm', s')"
  shows "connected s' = connected s \<and> BOARD_DIM s' = BOARD_DIM s"
  using assms unfolding remove_step.simps Let_def
  by (auto simp: ebind_eq_Inr split: if_splits)

lemma remove_connected:
  assumes "remove_last_n_moves n s = Inr (removed, s')"
  shows "connected s' = connected s" and "BOARD_DIM s' = BOARD_DIM s"
proof -
  have "connected (snd (removed, s')) = connected s \<and> BOARD_DIM (snd (removed, s')) = BOARD_DIM s"
  proof (rule for_each_preserves
      [where P = "\<lambda>t. connected (snd t) = connected s \<and> BOARD_DIM (snd t) = BOARD_DIM s"
         and body = "\<lambda>i. remove_step"])
    show "connected (snd t') = connected s \<and> BOARD_DIM (snd t') = BOARD_DIM s"
      if "connected (snd t) = connected s \<and> BOARD_DIM (snd t) = BOARD_DIM s"
        and "remove_step t = Inr t'" for x t t'
      using that remove_step_connected [of "fst t" "snd t" "fst t'" "snd t'"] by simp
    show "connected (snd ([], s)) = connected s \<and> BOARD_DIM (snd ([], s)) = BOARD_DIM s" by simp
    show "for_each [0 ..< nat n] (\<lambda>i. remove_step) ([], s) = Inr (removed, s')"
      using assms by (simp add: remove_last_n_moves_def)
  qed
  then show "connected s' = connected s" and "BOARD_DIM s' = BOARD_DIM s" by simp_all
qed

lemma game_step_marks:
  assumes "game_step s s'"
  shows "BOARD_DIM s' = BOARD_DIM s" and "length (connected s') = length (connected s)"
    and "\<And>i. i < length (connected s) \<Longrightarrow> connected s ! i \<noteq> 0 \<Longrightarrow> connected s' ! i \<noteq> 0"
  using assms
proof (induction rule: game_step.induct)
  case (place player rand s pos s')
  {
    case 1 show ?case using place_connected(2) [OF place(3)] .
  next
    case 2 show ?case using place_connected(1) [OF place(3)] by simp
  next
    case 3 then show ?case using place_connected(1) [OF place(3)] by simp
  }
next
  case (check player position s r s')
  from winner_only_marks [OF check(2)] have m: "only_marks player s s'" by simp
  note d = only_marksD [OF m]
  {
    case 1 show ?case by (rule d(1))
  next
    case 2 show ?case by (rule d(7))
  next
    case 3 then show ?case using d(8) [of i] by auto
  }
next
  case (undo n s removed s')
  {
    case 1 show ?case using remove_connected(2) [OF undo] .
  next
    case 2 show ?case using remove_connected(1) [OF undo] by simp
  next
    case 3 then show ?case using remove_connected(1) [OF undo] by simp
  }
qed

lemma game_steps_marks:
  assumes "game_step\<^sup>*\<^sup>* s s'"
  shows "BOARD_DIM s' = BOARD_DIM s \<and> length (connected s') = length (connected s) \<and>
         (\<forall>i < length (connected s). connected s ! i \<noteq> 0 \<longrightarrow> connected s' ! i \<noteq> 0)"
  using assms
proof (induction rule: rtranclp_induct)
  case base
  show ?case by simp
next
  case (step t t')
  from game_step_marks [OF step.hyps(2)] step.IH show ?case by auto
qed

lemma game_step_reachable:
  assumes "reachable s u" "game_step s s'"
  shows "\<exists>u'. reachable s' u'"
  using assms(2,1)
proof (induction rule: game_step.induct)
  case (place player rand s pos s')
  from reachable.placed [OF place(4,1,2,3)] show ?case by blast
next
  case (check player position s r s')
  from reachable.checked [OF check(3,1,2)] show ?case by blast
next
  case (undo n s removed s')
  from reachable.undone [OF undo(2,1)] show ?case by blast
qed

lemma game_steps_reachable:
  assumes "game_step\<^sup>*\<^sup>* s s'" "reachable s u"
  shows "\<exists>u'. reachable s' u'"
  using assms
proof (induction rule: rtranclp_induct)
  case base
  then show ?case by blast
next
  case (step t t')
  from step.IH [OF step.prems] obtain u' where "reachable t u'" by blast
  from game_step_reachable [OF this step.hyps(2)] show ?case .
qed

lemma connect_reports_goal:
  "connect p pos s = Inr (r, s') \<Longrightarrow> r \<noteq> 0 \<Longrightarrow>
     \<exists>g. 0 \<le> g * 2 + p \<and> g * 2 + p < int (length (connected s')) \<and>
         connected s' ! nat (g * 2 + p) = 1 \<and>
         (on_last_row p g s' = Inr True \<or> on_last_column p g s' = Inr True)"
  "connect_loop p pos is s = Inr (r, s') \<Longrightarrow> r \<noteq> 0 \<Longrightarrow>
     \<exists>g. 0 \<le> g * 2 + p \<and> g * 2 + p < int (length (connected s')) \<and>
         connected s' ! nat (g * 2 + p) = 1 \<and>
         (on_last_row p g s' = Inr True \<or> on_last_column p g s' = Inr True)"
proof (induction p pos s and p pos "is" s arbitrary: r s' and r s' rule: connect_connect_loop.induct)
  case (1 player position s)
  note run = "1.prems"(1) [unfolded connect.simps [of player position s]]
  from run obtain c where c: "put (connected s) (position * 2 + player) 1 = Inr c"
    by (auto simp: ebind_eq_Inr)
  let ?s1 = "s\<lparr>connected := c\<rparr>"
  from c have rng: "0 \<le> position * 2 + player" "position * 2 + player < int (length (connected ?s1))"
    and mk: "connected ?s1 ! nat (position * 2 + player) = 1"
    by (auto simp: put_eq_Inr)
  from run c obtain g0 where g0: "on_last_row player position ?s1 = Inr g0"
    by (auto simp: ebind_eq_Inr Let_def)
  show ?case
  proof (cases g0)
    case True
    with run c g0 have s': "s' = ?s1" by (simp add: Let_def)
    show ?thesis
      unfolding s' using rng mk g0 True by (intro exI [of _ position]) simp
  next
    case ng0: False
    with run c g0 obtain g1 where g1: "on_last_column player position ?s1 = Inr g1"
      by (auto simp: ebind_eq_Inr Let_def)
    show ?thesis
    proof (cases g1)
      case True
      with run c g0 g1 ng0 have s': "s' = ?s1" by (simp add: Let_def)
      show ?thesis
        unfolding s' using rng mk g1 True by (intro exI [of _ position]) simp
    next
      case ng1: False
      with run c g0 g1 ng0 have "connect_loop player position [0, 1, 2, 3, 4, 5] ?s1 = Inr (r, s')"
        by (simp add: Let_def)
      from "1.IH" [OF c refl g0 ng0 g1 ng1 this "1.prems"(2)] show ?thesis .
    qed
  qed
next
  case (2 player position s)
  then show ?case by simp
next
  case (3 player position i "is" s)
  note run = "3.prems"(1)
  from run obtain d b where d: "at (neighbors s) i = Inr d"
    and b: "at (board s) ((position + d) * 2 + player) = Inr b"
    by (auto simp: ebind_eq_Inr Let_def)
  let ?nb = "position + d"
  show ?case
  proof (cases "b \<noteq> 0")
    case False
    with run d b have "connect_loop player position is s = Inr (r, s')" by simp
    from "3.IH"(4) [OF d refl b False this "3.prems"(2)] show ?thesis .
  next
    case True
    with run d b obtain m where m: "at (connected s) (?nb * 2 + player) = Inr m"
      by (auto simp: ebind_eq_Inr Let_def)
    show ?thesis
    proof (cases "m = 0")
      case False
      with run d b m True have "connect_loop player position is s = Inr (r, s')" by simp
      from "3.IH"(3) [OF d refl b True m False this "3.prems"(2)] show ?thesis .
    next
      case m0: True
      with run d b m True obtain r1 s1 where c: "connect player ?nb s = Inr (r1, s1)"
        by (auto simp: ebind_eq_Inr Let_def)
      show ?thesis
      proof (cases "r1 \<noteq> 0")
        case True
        with run d b m \<open>b \<noteq> 0\<close> m0 c have "s' = s1" by simp
        with "3.IH"(1) [OF d refl b \<open>b \<noteq> 0\<close> m m0 c True] show ?thesis by simp
      next
        case False
        with run d b m \<open>b \<noteq> 0\<close> m0 c have "connect_loop player position is s1 = Inr (r, s')"
          by simp
        from "3.IH"(2) [OF d refl b \<open>b \<noteq> 0\<close> m m0 c refl False this "3.prems"(2)]
        show ?thesis .
      qed
    qed
  qed
qed

lemma winner_loop_reports_goal:
  "winner_loop p pos is s = Inr (r, s') \<Longrightarrow> r \<noteq> 0 \<Longrightarrow>
     \<exists>g. 0 \<le> g * 2 + p \<and> g * 2 + p < int (length (connected s')) \<and>
         connected s' ! nat (g * 2 + p) = 1 \<and>
         (on_last_row p g s' = Inr True \<or> on_last_column p g s' = Inr True)"
proof (induction "is")
  case Nil
  then show ?case by simp
next
  case (Cons i "is")
  from Cons.prems(1) obtain d m where d: "at (neighbors s) i = Inr d"
    and m: "at (connected s) ((pos + d) * 2 + p) = Inr m"
    by (auto simp: ebind_eq_Inr Let_def)
  show ?case
  proof (cases "m \<noteq> 0")
    case True
    with Cons.prems d m have "connect p pos s = Inr (r, s')" by simp
    then show ?thesis using Cons.prems(2) by (rule connect_reports_goal(1))
  next
    case False
    with Cons.prems d m have "winner_loop p pos is s = Inr (r, s')" by simp
    then show ?thesis using Cons.prems(2) by (rule Cons.IH)
  qed
qed

lemma winner_reports_won:
  assumes v: "valid s" and p: "p = 0 \<or> p = 1"
    and w: "winner p pos s = Inr (r, s')" and r: "r \<noteq> 0"
  shows "won p s'"
proof -
  from winner_only_marks [OF w] have m: "only_marks p s s'" by simp
  note v' = valid_only_marks [OF v m]
  define n where "n = BOARD_DIM s'"
  note sd = sizedD [OF validD(1) [OF v'], folded n_def]
  have n1: "1 \<le> n" using validD(2) [OF v'] by (simp add: n_def)
  from winner_loop_reports_goal [OF w [unfolded winner_def] r]
  obtain g where g: "0 \<le> g * 2 + p" "g * 2 + p < int (length (connected s'))"
    "connected s' ! nat (g * 2 + p) = 1"
    "on_last_row p g s' = Inr True \<or> on_last_column p g s' = Inr True"
    by blast
  define sz where "sz = (n + 2) * (n + 2)"
  have l: "int (length (connected s')) = 2 * sz" using sd(3) by (simp add: sz_def)
  from g(1,2) p have g0: "0 \<le> g" "g < sz" unfolding l by auto
  have w0: "0 < n + 2" using n1 by simp
  have edge: "p = 0 \<and> g div (n + 2) = n \<or> p = 1 \<and> g mod (n + 2) = n"
    using g(4) g0(1) w0 unfolding on_last_row_def on_last_column_def n_def [symmetric]
    by (auto simp: c_div_nonneg c_mod_nonneg split: if_splits)
  have "g \<in> set [0 .. (n + 2) * (n + 2) - 1]" using g0 by (simp add: sz_def)
  with edge g(3) show ?thesis unfolding won_def n_def [symmetric] by force
qed

lemma won_persists:
  assumes st: "game_step\<^sup>*\<^sup>* s s'" and v: "valid s" and w: "won p s" and p: "p = 0 \<or> p = 1"
  shows "won p s'"
proof -
  define n where "n = BOARD_DIM s"
  note sd = sizedD [OF validD(1) [OF v], folded n_def]
  from game_steps_marks [OF st] have d: "BOARD_DIM s' = n"
    and mono: "\<And>i. i < length (connected s) \<Longrightarrow> connected s ! i \<noteq> 0 \<Longrightarrow> connected s' ! i \<noteq> 0"
    by (simp_all add: n_def)
  from w obtain g where g: "0 \<le> g" "g \<le> (n + 2) * (n + 2) - 1"
    "p = 0 \<and> g div (n + 2) = n \<or> p = 1 \<and> g mod (n + 2) = n"
    "connected s ! nat (g * 2 + p) \<noteq> 0"
    unfolding won_def n_def [symmetric] by auto
  have "g < (n + 2) * (n + 2)" using g(2) by simp
  from cell_index_range [OF g(1) this p sd(3)]
  have "nat (g * 2 + p) < length (connected s)" by simp
  from mono [OF this g(4)] g(1,2,3) show ?thesis
    unfolding won_def d by auto
qed

lemma fresh_connected_01: "x \<in> set (fresh_connected n) \<Longrightarrow> x = 0 \<or> x = 1"
  by (auto simp: fresh_connected_def)

lemma reachable_marks_01:
  "reachable s u \<Longrightarrow> x \<in> set (connected s) \<Longrightarrow> x = 0 \<or> x = 1"
proof (induction arbitrary: x rule: reachable.induct)
  case (constructed dim s)
  with HexGame_fresh [of dim] fresh_connected_01 [of x dim] show ?case by auto
next
  case (reinit s u s')
  from validD(1) [OF reachable_valid [OF reinit.hyps(1)]] init_fresh [of s] reinit.hyps(2)
  have "s' = fresh s" by simp
  with reinit.prems fresh_connected_01 [of x "BOARD_DIM s"] show ?case by simp
next
  case (placed s u player rand pos s')
  with place_connected(1) [OF placed.hyps(4)] show ?case by simp
next
  case (checked s u player position r s')
  from winner_only_marks [OF checked.hyps(3)] have m: "only_marks player s s'" by simp
  note d = only_marksD [OF m]
  from checked.prems obtain i where i: "i < length (connected s')" "connected s' ! i = x"
    by (auto simp: in_set_conv_nth)
  with d(7) have il: "i < length (connected s)" by simp
  from d(8) [OF il] i(2) checked.IH [of "connected s ! i"] il show ?case by auto
next
  case (undone s u n removed s')
  with remove_connected(1) [OF undone.hyps(2)] show ?case by simp
qed

lemma winner_loop_no_mark:
  assumes "winner_loop p pos is s = Inr (r, s')"
    and "\<And>i d. i \<in> set is \<Longrightarrow> at (neighbors s) i = Inr d \<Longrightarrow>
           connected s ! nat ((pos + d) * 2 + p) = 0"
  shows "r = 0 \<and> s' = s"
  using assms
proof (induction "is")
  case Nil
  then show ?case by simp
next
  case (Cons i "is")
  from Cons.prems(1) obtain d m where d: "at (neighbors s) i = Inr d"
    and m: "at (connected s) ((pos + d) * 2 + p) = Inr m"
    by (auto simp: ebind_eq_Inr Let_def)
  from Cons.prems(2) [OF _ d] have "connected s ! nat ((pos + d) * 2 + p) = 0" by simp
  with m have "m = 0" by (simp add: at_eq_Inr)
  with Cons.prems(1) d m have "winner_loop p pos is s = Inr (r, s')" by simp
  then show ?case
  proof (rule Cons.IH)
    fix j e assume "j \<in> set is" "at (neighbors s) j = Inr e"
    then show "connected s ! nat ((pos + e) * 2 + p) = 0"
      using Cons.prems(2) [of j e] by simp
  qed
qed


subsection \<open>\<open>board_to_coord\<close>\<close>

lemma for_each_collect:
  assumes "\<And>x acc. x \<in> set xs \<Longrightarrow> body x acc = Inr (acc @ [g x])"
  shows "for_each xs body acc = Inr (acc @ map g xs)"
  using assms
proof (induction xs arbitrary: acc)
  case Nil
  then show ?case by simp
next
  case (Cons x xs)
  have "body x acc = Inr (acc @ [g x])" by (rule Cons.prems) simp
  moreover have "for_each xs body (acc @ [g x]) = Inr ((acc @ [g x]) @ map g xs)"
    by (rule Cons.IH) (simp add: Cons.prems)
  ultimately show ?case by simp
qed

lemma inner_cell_range:
  fixes n i j :: int
  assumes "0 \<le> i" "i < n" "0 \<le> j" "j < n"
  shows "0 \<le> (i + 1) * (n + 2) + j + 1" and "(i + 1) * (n + 2) + j + 1 < (n + 2) * (n + 2)"
    and "(i + 1) * (n + 2) + j + 1 = padded_of n (i * n + j)"
proof -
  have "0 \<le> (i + 1) * (n + 2)" using assms by simp
  then show "0 \<le> (i + 1) * (n + 2) + j + 1" using assms by linarith
  have "i + 1 \<le> n" "0 \<le> n + 2" using assms by linarith+
  then have "(i + 1) * (n + 2) \<le> n * (n + 2)" by (rule mult_right_mono)
  then have "(i + 1) * (n + 2) + j + 1 < n * (n + 2) + (n + 2)" using assms by linarith
  also have "\<dots> = (n + 1) * (n + 2)" by (simp add: algebra_simps)
  also have "\<dots> \<le> (n + 2) * (n + 2)" using assms by (intro mult_right_mono) auto
  finally show "(i + 1) * (n + 2) + j + 1 < (n + 2) * (n + 2)" .
  have "(i * n + j) div n = i" "(i * n + j) mod n = j"
    using assms(3,4) by (rule int_div_mod_decomp)+
  then show "(i + 1) * (n + 2) + j + 1 = padded_of n (i * n + j)"
    by (simp add: padded_of_def)
qed

lemma coord_cell_in_range:
  assumes s: "sized s" and i: "0 \<le> i" "i < BOARD_DIM s" and j: "0 \<le> j" "j < BOARD_DIM s"
  shows "coord_cell s i j acc
     = Inr (acc @ [cell_value s ((i + 1) * (BOARD_DIM s + 2) + j + 1)])"
proof -
  define c where "c = (i + 1) * (BOARD_DIM s + 2) + j + 1"
  note r = inner_cell_range(1,2) [OF i j, folded c_def]
  note sd = sizedD [OF s]
  have a0: "at (board s) (c * 2) = Inr (board s ! nat (c * 2))"
    using cell_index_range [OF r _ sd(2), of 0] by (simp add: at_def)
  have a1: "at (board s) (c * 2 + 1) = Inr (board s ! nat (c * 2 + 1))"
    using cell_index_range [OF r _ sd(2), of 1] by (simp add: at_def)
  show ?thesis
    unfolding coord_cell_def c_def [symmetric] a0 a1 ebind_Inr Let_def cell_value_def ..
qed

lemma board_to_coord_result:
  assumes s: "sized s"
  shows "board_to_coord s =
     Inr (map (\<lambda>(i, j). cell_value s ((int i + 1) * (BOARD_DIM s + 2) + int j + 1))
            (List.product [0 ..< nat (BOARD_DIM s)] [0 ..< nat (BOARD_DIM s)]))"
proof -
  let ?cells = "List.product [0 ..< nat (BOARD_DIM s)] [0 ..< nat (BOARD_DIM s)]"
  let ?g = "\<lambda>(i, j). cell_value s ((int i + 1) * (BOARD_DIM s + 2) + int j + 1)"
  have "for_each ?cells (\<lambda>(i, j). coord_cell s (int i) (int j)) [] = Inr ([] @ map ?g ?cells)"
  proof (rule for_each_collect)
    fix x :: "nat \<times> nat" and acc
    assume xin: "x \<in> set ?cells"
    obtain i j where x: "x = (i, j)" by (cases x)
    from xin have "i < nat (BOARD_DIM s)" "j < nat (BOARD_DIM s)" unfolding x by simp_all
    then have "int i < BOARD_DIM s" "int j < BOARD_DIM s" by linarith+
    with x show "(case x of (i, j) \<Rightarrow> coord_cell s (int i) (int j)) acc = Inr (acc @ [?g x])"
      using coord_cell_in_range [OF s, of "int i" "int j" acc] by simp
  qed
  then show ?thesis
    unfolding board_to_coord_def for_each_nested by simp
qed

lemma product_index:
  "map (\<lambda>(i, j). int (i * n + j)) (List.product [0 ..< n] [0 ..< n]) = map int [0 ..< n * n]"
proof (rule nth_equalityI)
  show "length (map (\<lambda>(i, j). int (i * n + j)) (List.product [0 ..< n] [0 ..< n]))
      = length (map int [0 ..< n * n])" by simp
next
  fix k assume "k < length (map (\<lambda>(i, j). int (i * n + j)) (List.product [0 ..< n] [0 ..< n]))"
  then have k: "k < n * n" by simp
  then have n0: "0 < n" by (cases n) simp_all
  have d: "k div n < n" using k n0 by (simp add: less_mult_imp_div_less)
  have m: "k mod n < n" using n0 by simp
  have e: "int (k div n * n + k mod n) = int k" by (simp only: div_mult_mod_eq)
  have "List.product [0 ..< n] [0 ..< n] ! k = (k div n, k mod n)"
    using k d m by (simp add: product_nth)
  then have "map (\<lambda>(i, j). int (i * n + j)) (List.product [0 ..< n] [0 ..< n]) ! k
      = int (k div n * n + k mod n)" using k by (simp del: of_nat_add of_nat_mult)
  also note e
  also have "int k = map int [0 ..< n * n] ! k" using k by simp
  finally show "map (\<lambda>(i, j). int (i * n + j)) (List.product [0 ..< n] [0 ..< n]) ! k
      = map int [0 ..< n * n] ! k" .
qed

lemma board_to_coord_count:
  assumes v: "valid s"
  shows "length (filter (\<lambda>x. x \<noteq> 0)
           (map (\<lambda>(i, j). cell_value s ((int i + 1) * (BOARD_DIM s + 2) + int j + 1))
              (List.product [0 ..< nat (BOARD_DIM s)] [0 ..< nat (BOARD_DIM s)])))
         = length (moves s)"
proof -
  define n where "n = nat (BOARD_DIM s)"
  note vd = validD [OF v]
  have N: "BOARD_DIM s = int n" using vd(2) by (simp add: n_def)
  note vd' = vd [unfolded N]
  let ?cells = "List.product [0 ..< n] [0 ..< n]"
  let ?g = "\<lambda>(i, j). cell_value s ((int i + 1) * (int n + 2) + int j + 1)"
  let ?h = "\<lambda>(i, j). int (i * n + j)"
  have occ: "?g x \<noteq> 0 \<longleftrightarrow> ?h x \<in> set (moves s)" if "x \<in> set ?cells" for x
  proof -
    obtain i j where x: "x = (i, j)" by (cases x)
    from that have ij: "i < n" "j < n" unfolding x by simp_all
    define c where "c = (int i + 1) * (int n + 2) + int j + 1"
    have ij': "0 \<le> int i" "int i < int n" "0 \<le> int j" "int j < int n" using ij by simp_all
    note r = inner_cell_range [OF ij', folded c_def]
    have q: "0 \<le> int i * int n + int j" "int i * int n + int j < int n * int n"
    proof -
      show "0 \<le> int i * int n + int j" by simp
      have "int i + 1 \<le> int n" using ij by simp
      then have "(int i + 1) * int n \<le> int n * int n" by (intro mult_right_mono) auto
      then show "int i * int n + int j < int n * int n" using ij by (simp add: algebra_simps)
    qed
    have pl: "playable (int n) c" and lg: "logical_of (int n) c = int i * int n + int j"
      unfolding r(3) using padded_of_logical [OF vd'(2) q] by simp_all
    from vd'(10) [OF r(1,2)] pl lg
    have "(board s ! nat (c * 2) = 1 \<or> board s ! nat (c * 2 + 1) = 1)
        \<longleftrightarrow> int i * int n + int j \<in> set (moves s)" by simp
    then have "cell_value s c \<noteq> 0 \<longleftrightarrow> int i * int n + int j \<in> set (moves s)"
      by (auto simp: cell_value_def)
    moreover have "?g x = cell_value s c" unfolding x c_def by simp
    moreover have "?h x = int i * int n + int j" unfolding x by simp
    ultimately show ?thesis by simp
  qed
  have "length (filter (\<lambda>x. x \<noteq> 0) (map ?g ?cells)) = length (filter (\<lambda>x. ?g x \<noteq> 0) ?cells)"
    by (simp add: filter_map comp_def)
  also have "filter (\<lambda>x. ?g x \<noteq> 0) ?cells = filter (\<lambda>x. ?h x \<in> set (moves s)) ?cells"
    by (rule filter_cong [OF refl]) (rule occ)
  also have "length \<dots> = length (filter (\<lambda>q. q \<in> set (moves s)) (map ?h ?cells))"
    by (simp add: filter_map comp_def)
  also have "\<dots> = length (filter (\<lambda>q. q \<in> set (moves s)) (map int [0 ..< n * n]))"
    by (simp only: product_index)
  also have "\<dots> = card ({q. q \<in> set (moves s)} \<inter> set (map int [0 ..< n * n]))"
    by (rule distinct_length_filter) (simp add: distinct_map)
  also have "{q. q \<in> set (moves s)} \<inter> set (map int [0 ..< n * n]) = set (moves s)"
  proof -
    have "m \<in> set (map int [0 ..< n * n])" if "m \<in> set (moves s)" for m
    proof -
      from vd'(8) [OF that] have m: "0 \<le> m" "m < int (n * n)" by simp_all
      then have "nat m < n * n" by (simp only: nat_less_iff [OF m(1)])
      moreover have "m = int (nat m)" using m(1) by simp
      ultimately have "m \<in> int ` {0 ..< n * n}" by (intro image_eqI [of _ _ "nat m"]) simp_all
      then show ?thesis by simp
    qed
    then show ?thesis by auto
  qed
  also have "card (set (moves s)) = length (moves s)"
    by (rule distinct_card [OF vd(7)])
  finally show ?thesis unfolding N n_def [symmetric] by simp
qed

lemma cell_value_range: "cell_value s c = - 1 \<or> cell_value s c = 0 \<or> cell_value s c = 1"
  by (simp add: cell_value_def)


section \<open>The flood fill of \<open>connect\<close> against paths of stones\<close>

subsection \<open>Chains\<close>

lemma chain_subset: "b \<in> chain n S a \<Longrightarrow> b \<in> S"
  by (induction rule: chain.induct) simp_all

lemma chain_start: "b \<in> chain n S a \<Longrightarrow> a \<in> S"
  by (induction rule: chain.induct) simp_all

lemma chain_trans:
  assumes "c \<in> chain n S b" and "b \<in> chain n S a"
  shows "c \<in> chain n S a"
  using assms
proof (induction rule: chain.induct)
  case start
  then show ?case by simp
next
  case (extend c c')
  from extend.IH [OF extend.prems] extend.hyps(2,3) show ?case by (rule chain.extend)
qed

lemma chain_mono:
  assumes "b \<in> chain n S a" and "S \<subseteq> T"
  shows "b \<in> chain n T a"
  using assms
proof (induction rule: chain.induct)
  case start
  then show ?case by (auto intro: chain.start)
next
  case (extend b b')
  from extend.IH [OF extend.prems] extend.hyps(2,3) extend.prems show ?case
    by (auto intro: chain.extend)
qed

lemma hex_offsets_sym: "d \<in> set (hex_offsets n) \<Longrightarrow> - d \<in> set (hex_offsets n)"
  by (auto simp: hex_offsets_def)

lemma hex_offsets_nth:
  "d \<in> set (hex_offsets n) \<longleftrightarrow> (\<exists>i \<in> {0, 1, 2, 3, 4, 5 :: int}. d = hex_offsets n ! nat i)"
  by (auto simp: hex_offsets_def)

lemma bex_hex_offsets:
  "(\<exists>d \<in> set (hex_offsets n). P d) \<longleftrightarrow>
     P (- (n + 2) + 1) \<or> P (- (n + 2)) \<or> P (- 1) \<or>
     P 1 \<or> P (n + 2) \<or> P ((n + 2) - 1)"
  by (simp add: hex_offsets_def)

subsection \<open>Cells of the padded grid\<close>

lemma playable_bounds:
  assumes "1 \<le> n" "playable n c"
  shows "n + 3 \<le> c" and "c \<le> n * (n + 2) + n"
proof -
  define r where "r = c div (n + 2)"
  define j where "j = c mod (n + 2)"
  have c: "c = r * (n + 2) + j" using div_mult_mod_eq [of c "n + 2"] by (simp add: r_def j_def)
  from assms have rj: "1 \<le> r" "r \<le> n" "1 \<le> j" "j \<le> n"
    by (simp_all add: playable_def r_def j_def)
  have w: "0 \<le> n + 2" using assms by linarith
  define m where "m = r * (n + 2)"
  define k where "k = n * (n + 2)"
  from rj(1) w have "1 * (n + 2) \<le> r * (n + 2)" by (rule mult_right_mono)
  then have "n + 2 \<le> m" by (simp add: m_def)
  then show "n + 3 \<le> c" using rj c unfolding m_def [symmetric] by linarith
  from rj(2) w have "m \<le> k" unfolding m_def k_def by (rule mult_right_mono)
  then show "c \<le> n * (n + 2) + n" using rj c unfolding m_def [symmetric] k_def [symmetric]
    by linarith
qed

lemma neighbor_in_grid:
  assumes "1 \<le> n" "playable n c" "d \<in> set (hex_offsets n)"
  shows "0 \<le> c + d" and "c + d < (n + 2) * (n + 2)"
proof -
  note b = playable_bounds [OF assms(1,2)]
  from assms(3) have d: "- (n + 2) \<le> d" "d \<le> n + 2"
    using assms(1) by (auto simp: hex_offsets_def)
  show "0 \<le> c + d" using b(1) d(1) by linarith
  have "c + d \<le> n * (n + 2) + n + (n + 2)" using b(2) d(2) by linarith
  also have "\<dots> < (n + 2) * (n + 2)" by (simp add: algebra_simps)
  finally show "c + d < (n + 2) * (n + 2)" .
qed

lemma row_col_of_neighbor:
  fixes n r j :: int
  assumes "1 \<le> n" "0 \<le> j" "j < n + 2"
  shows "(r * (n + 2) + j) div (n + 2) = r" "(r * (n + 2) + j) mod (n + 2) = j"
  using assms(2,3) by (rule int_div_mod_decomp)+

lemma start_edge_iff_sentinel_neighbor:
  assumes n: "1 \<le> n" and pl: "playable n c" and p: "p = 0 \<or> p = 1"
  shows "start_edge p n c \<longleftrightarrow> (\<exists>d \<in> set (hex_offsets n). start_sentinel p n (c + d))"
proof -
  define r where "r = c div (n + 2)"
  define j where "j = c mod (n + 2)"
  have c: "c = r * (n + 2) + j" using div_mult_mod_eq [of c "n + 2"] by (simp add: r_def j_def)
  from pl have rj: "1 \<le> r" "r \<le> n" "1 \<le> j" "j \<le> n"
    by (simp_all add: playable_def r_def j_def)
  have e: "c + (- (n + 2) + 1) = (r - 1) * (n + 2) + (j + 1)"
    "c + (- (n + 2)) = (r - 1) * (n + 2) + j"
    "c + (- 1) = r * (n + 2) + (j - 1)"
    "c + 1 = r * (n + 2) + (j + 1)"
    "c + (n + 2) = (r + 1) * (n + 2) + j"
    "c + ((n + 2) - 1) = (r + 1) * (n + 2) + (j - 1)"
    unfolding c by (simp_all add: algebra_simps)
  have dm: "(c + (- (n + 2) + 1)) div (n + 2) = r - 1" "(c + (- (n + 2) + 1)) mod (n + 2) = j + 1"
    "(c + (- (n + 2))) div (n + 2) = r - 1" "(c + (- (n + 2))) mod (n + 2) = j"
    "(c + (- 1)) div (n + 2) = r" "(c + (- 1)) mod (n + 2) = j - 1"
    "(c + 1) div (n + 2) = r" "(c + 1) mod (n + 2) = j + 1"
    "(c + (n + 2)) div (n + 2) = r + 1" "(c + (n + 2)) mod (n + 2) = j"
    "(c + ((n + 2) - 1)) div (n + 2) = r + 1" "(c + ((n + 2) - 1)) mod (n + 2) = j - 1"
    unfolding e using rj n by (simp_all add: row_col_of_neighbor)
  have "(\<exists>d \<in> set (hex_offsets n). start_sentinel p n (c + d))
      \<longleftrightarrow> (p = 0 \<and> r = 1 \<or> p = 1 \<and> j = 1)"
    unfolding bex_hex_offsets start_sentinel_def dm using rj p by auto
  then show ?thesis unfolding start_edge_def r_def j_def by simp
qed

lemma sentinel_not_playable: "start_sentinel p n c \<Longrightarrow> \<not> playable n c"
  by (auto simp: start_sentinel_def playable_def)

subsection \<open>Reading and writing a framed object\<close>

lemma framedD:
  assumes "framed n p S t"
  shows "sized t" "BOARD_DIM t = n" "stones p t = S"
    "\<And>c. 0 \<le> c \<Longrightarrow> c < (n + 2) * (n + 2) \<Longrightarrow> board t ! nat (c * 2 + p) \<noteq> 0 \<Longrightarrow> c \<in> S"
    "int (length (board t)) = 2 * (n + 2) * (n + 2)"
    "int (length (connected t)) = 2 * (n + 2) * (n + 2)"
    "neighbors t = hex_offsets n"
  using assms sizedD [of t] unfolding framed_def hex_offsets_def by simp_all

lemma framed_only_marks:
  assumes f: "framed n p S t" and m: "only_marks p t t'"
  shows "framed n p S t'"
proof -
  note d = only_marksD [OF m]
  note fd = framedD [OF f]
  have "sized t'" using fd(1) unfolding sized_def Let_def d by simp
  moreover have "stones p t' = S" using fd(3) unfolding stones_def d by simp
  ultimately show ?thesis using fd(2,4) unfolding framed_def d by simp
qed

lemma marked_only_marks:
  assumes f: "framed n p S t" and m: "only_marks p t t'" and p: "p = 0 \<or> p = 1"
  shows "marked p t \<subseteq> marked p t'"
proof
  fix c assume "c \<in> marked p t"
  then have c: "0 \<le> c" "c < (n + 2) * (n + 2)" "connected t ! nat (c * 2 + p) \<noteq> 0"
    unfolding marked_def framedD(2) [OF f] by simp_all
  note d = only_marksD [OF m]
  from cell_index_range [OF c(1,2) p framedD(6) [OF f]]
  have "nat (c * 2 + p) < length (connected t)" by simp
  from d(8) [OF this] c(3) have "connected t' ! nat (c * 2 + p) \<noteq> 0" by auto
  with c(1,2) show "c \<in> marked p t'"
    unfolding marked_def d framedD(2) [OF f] by simp
qed

lemma read_board:
  assumes f: "framed n p S t" and p: "p = 0 \<or> p = 1"
    and x: "0 \<le> x" "x < (n + 2) * (n + 2)"
  shows "\<exists>b. at (board t) (x * 2 + p) = Inr b \<and> (b \<noteq> 0 \<longleftrightarrow> x \<in> S)"
proof -
  from cell_index_range [OF x p framedD(5) [OF f]]
  have "at (board t) (x * 2 + p) = Inr (board t ! nat (x * 2 + p))" by (simp add: at_def)
  moreover have "board t ! nat (x * 2 + p) \<noteq> 0 \<longleftrightarrow> x \<in> S"
    using framedD(4) [OF f x] framedD(3) [OF f] by (auto simp: stones_def)
  ultimately show ?thesis by simp
qed

lemma read_connected:
  assumes f: "framed n p S t" and p: "p = 0 \<or> p = 1"
    and x: "0 \<le> x" "x < (n + 2) * (n + 2)"
  shows "\<exists>m. at (connected t) (x * 2 + p) = Inr m \<and> (m \<noteq> 0 \<longleftrightarrow> x \<in> marked p t)"
proof -
  from cell_index_range [OF x p framedD(6) [OF f]]
  have "at (connected t) (x * 2 + p) = Inr (connected t ! nat (x * 2 + p))" by (simp add: at_def)
  moreover have "connected t ! nat (x * 2 + p) \<noteq> 0 \<longleftrightarrow> x \<in> marked p t"
    using x by (simp add: marked_def framedD(2) [OF f])
  ultimately show ?thesis by simp
qed

lemma read_neighbors:
  assumes f: "framed n p S t" and i: "0 \<le> i" "i < 6"
  shows "at (neighbors t) i = Inr (hex_offsets n ! nat i)"
    and "hex_offsets n ! nat i \<in> set (hex_offsets n)"
proof -
  have l: "length (hex_offsets n) = 6" by (simp add: hex_offsets_def)
  show "at (neighbors t) i = Inr (hex_offsets n ! nat i)"
    using i unfolding framedD(7) [OF f] at_def l by simp
  have "nat i < length (hex_offsets n)" using i unfolding l by simp
  then show "hex_offsets n ! nat i \<in> set (hex_offsets n)" by (rule nth_mem)
qed

lemma write_mark:
  assumes f: "framed n p S t" and p: "p = 0 \<or> p = 1"
    and x: "0 \<le> x" "x < (n + 2) * (n + 2)"
  shows "\<exists>c. put (connected t) (x * 2 + p) 1 = Inr c \<and>
           framed n p S (t\<lparr>connected := c\<rparr>) \<and> only_marks p t (t\<lparr>connected := c\<rparr>) \<and>
           marked p (t\<lparr>connected := c\<rparr>) = insert x (marked p t)"
proof -
  define k where "k = nat (x * 2 + p)"
  define c where "c = (connected t)[k := 1]"
  note r = cell_index_range [OF x p framedD(6) [OF f]]
  have pc: "put (connected t) (x * 2 + p) 1 = Inr c"
    using r by (simp add: put_def c_def k_def)
  have om: "only_marks p t (t\<lparr>connected := c\<rparr>)" by (rule only_marks_put [OF pc])
  have fr: "framed n p S (t\<lparr>connected := c\<rparr>)" by (rule framed_only_marks [OF f om])
  have kl: "k < length (connected t)" using r by (simp add: k_def)
  have "marked p (t\<lparr>connected := c\<rparr>) = insert x (marked p t)"
  proof (rule set_eqI)
    fix y
    show "y \<in> marked p (t\<lparr>connected := c\<rparr>) \<longleftrightarrow> y \<in> insert x (marked p t)"
    proof (cases "y = x")
      case True
      then show ?thesis using x kl by (simp add: marked_def framedD(2) [OF f] c_def k_def)
    next
      case False
      have "nat (y * 2 + p) \<noteq> k" if "0 \<le> y"
        using that False x(1) p unfolding k_def by (auto simp: nat_eq_iff)
      then show ?thesis using False by (auto simp: marked_def c_def)
    qed
  qed
  with pc fr om show ?thesis by blast
qed

lemma goal_tests:
  assumes f: "framed n p S t" and n: "1 \<le> n" and x: "0 \<le> x"
  shows "on_last_row p x t = Inr (p = 0 \<and> x div (n + 2) = n)"
    and "on_last_column p x t = Inr (p = 1 \<and> x mod (n + 2) = n)"
proof -
  have w: "0 < n + 2" using n by linarith
  show "on_last_row p x t = Inr (p = 0 \<and> x div (n + 2) = n)"
    unfolding on_last_row_def framedD(2) [OF f] by (simp add: c_div_nonneg [OF x w])
  show "on_last_column p x t = Inr (p = 1 \<and> x mod (n + 2) = n)"
    unfolding on_last_column_def framedD(2) [OF f] by (simp add: c_mod_nonneg [OF x w])
qed

subsection \<open>Composing the results of the loop of \<open>connect\<close>\<close>

lemma loop_post_nil: "loop_post n p S c [] M 0 M"
  by (simp add: loop_post_def)

lemma loop_post_skip:
  assumes "loop_post n p S c is M r M'"
    and "c + hex_offsets n ! nat i \<in> S \<longrightarrow> c + hex_offsets n ! nat i \<in> M"
  shows "loop_post n p S c (i # is) M r M'"
  using assms unfolding loop_post_def by auto

lemma chain_via_neighbor:
  assumes "c \<in> S" "nb \<in> S" "nb - c \<in> set (hex_offsets n)" "x \<in> chain n S nb"
  shows "x \<in> chain n S c"
proof -
  have "nb \<in> chain n S c"
    by (rule chain.extend [OF chain.start [OF assms(1)] assms(2,3)])
  with assms(4) show ?thesis by (rule chain_trans)
qed

lemma loop_post_found:
  assumes f: "fill_post n p S nb M r1 M1" and r: "r1 \<noteq> 0"
    and c: "c \<in> S" "nb \<in> S" "nb - c \<in> set (hex_offsets n)"
  shows "loop_post n p S c (i # is) M 1 M1"
proof -
  from f have a: "M \<subseteq> M1" "M1 - M \<subseteq> chain n S nb"
    and "\<exists>x \<in> M1. x \<in> chain n S nb \<and> goal_edge p n x"
    using r unfolding fill_post_def by simp_all
  then obtain x where x: "x \<in> M1" "x \<in> chain n S nb" "goal_edge p n x" by blast
  have "M1 - M \<subseteq> chain n S c"
    using a(2) chain_via_neighbor [OF c] by blast
  moreover have "\<exists>x \<in> M1. x \<in> chain n S c \<and> goal_edge p n x"
    using x chain_via_neighbor [OF c x(2)] by blast
  ultimately show ?thesis using a(1) unfolding loop_post_def by simp
qed

lemma loop_post_continue:
  assumes f: "fill_post n p S nb M 0 M1" and l: "loop_post n p S c is M1 r M'"
    and nb: "nb = c + hex_offsets n ! nat i"
    and c: "c \<in> S" "nb \<in> S" "nb - c \<in> set (hex_offsets n)"
  shows "loop_post n p S c (i # is) M r M'"
proof -
  from f have f1: "M \<subseteq> M1" "nb \<in> M1" "M1 - M \<subseteq> chain n S nb"
    and f2: "\<And>x. x \<in> M1 - M \<Longrightarrow> \<not> goal_edge p n x \<and>
                    (\<forall>y \<in> S. y - x \<in> set (hex_offsets n) \<longrightarrow> y \<in> M1)"
    unfolding fill_post_def by simp_all
  from l have l1: "M1 \<subseteq> M'" "M' - M1 \<subseteq> chain n S c" "r = 0 \<or> r = 1"
    and l2: "r = 0 \<Longrightarrow> x \<in> M' - M1 \<Longrightarrow> \<not> goal_edge p n x \<and>
                    (\<forall>y \<in> S. y - x \<in> set (hex_offsets n) \<longrightarrow> y \<in> M')"
    and l3: "r = 0 \<Longrightarrow> j \<in> set is \<Longrightarrow> c + hex_offsets n ! nat j \<in> S \<Longrightarrow>
               c + hex_offsets n ! nat j \<in> M'"
    and l4: "r \<noteq> 0 \<Longrightarrow> \<exists>x \<in> M'. x \<in> chain n S c \<and> goal_edge p n x"
    for x j
    unfolding loop_post_def by simp_all
  have a: "M \<subseteq> M'" using f1(1) l1(1) by blast
  have b: "M' - M \<subseteq> chain n S c"
  proof
    fix x assume "x \<in> M' - M"
    then have "x \<in> M' - M1 \<or> x \<in> M1 - M" by blast
    then show "x \<in> chain n S c"
      using l1(2) f1(3) chain_via_neighbor [OF c] by blast
  qed
  have d: "\<not> goal_edge p n x \<and> (\<forall>y \<in> S. y - x \<in> set (hex_offsets n) \<longrightarrow> y \<in> M')"
    if "r = 0" "x \<in> M' - M" for x
  proof (cases "x \<in> M1")
    case True
    with that have "x \<in> M1 - M" by simp
    from f2 [OF this] l1(1) show ?thesis by blast
  next
    case False
    with that have "x \<in> M' - M1" by simp
    from l2 [OF that(1) this] show ?thesis .
  qed
  have e: "c + hex_offsets n ! nat j \<in> M'"
    if "r = 0" "j \<in> set (i # is)" "c + hex_offsets n ! nat j \<in> S" for j
  proof (cases "j = i")
    case True
    then show ?thesis using f1(2) l1(1) nb by auto
  next
    case False
    with that(2) have "j \<in> set is" by simp
    from l3 [OF that(1) this that(3)] show ?thesis .
  qed
  show ?thesis
    unfolding loop_post_def using a b l1(3) d e l4 by blast
qed

lemma fill_post_goal:
  assumes "c \<in> S" "goal_edge p n c"
  shows "fill_post n p S c M 1 (insert c M)"
  unfolding fill_post_def using assms chain.start [OF assms(1)] by auto

lemma fill_post_from_loop:
  assumes l: "loop_post n p S c [0, 1, 2, 3, 4, 5] (insert c M) r M'"
    and c: "c \<in> S" "\<not> goal_edge p n c"
  shows "fill_post n p S c M r M'"
proof -
  define js :: "int list" where "js = [0, 1, 2, 3, 4, 5]"
  have js: "set js = {0, 1, 2, 3, 4, 5}" by (simp add: js_def)
  note l' = l [folded js_def, unfolded loop_post_def]
  from l' have l1: "insert c M \<subseteq> M'" "M' - insert c M \<subseteq> chain n S c" "r = 0 \<or> r = 1"
    by blast+
  from l' have l2: "r = 0 \<Longrightarrow> x \<in> M' - insert c M \<Longrightarrow> \<not> goal_edge p n x \<and>
                    (\<forall>y \<in> S. y - x \<in> set (hex_offsets n) \<longrightarrow> y \<in> M')" for x
    by blast
  from l' have l3: "r = 0 \<Longrightarrow> j \<in> set js \<Longrightarrow> c + hex_offsets n ! nat j \<in> S \<Longrightarrow>
               c + hex_offsets n ! nat j \<in> M'" for j
    by blast
  from l' have l4: "r \<noteq> 0 \<Longrightarrow> \<exists>x \<in> M'. x \<in> chain n S c \<and> goal_edge p n x"
    by blast
  have b: "M' - M \<subseteq> chain n S c"
    using l1(2) chain.start [OF c(1)] by blast
  have d: "\<not> goal_edge p n x \<and> (\<forall>y \<in> S. y - x \<in> set (hex_offsets n) \<longrightarrow> y \<in> M')"
    if r: "r = 0" and x: "x \<in> M' - M" for x
  proof (cases "x = c")
    case False
    with x have "x \<in> M' - insert c M" by simp
    from l2 [OF r this] show ?thesis .
  next
    case True
    have "y \<in> M'" if y: "y \<in> S" "y - c \<in> set (hex_offsets n)" for y
    proof -
      from y(2) obtain j where j: "j \<in> {0, 1, 2, 3, 4, 5 :: int}" "y - c = hex_offsets n ! nat j"
        unfolding hex_offsets_nth by blast
      then have "c + hex_offsets n ! nat j = y" by simp
      moreover have "j \<in> set js" using j(1) unfolding js .
      ultimately show ?thesis using l3 [OF r, of j] y(1) by simp
    qed
    with c(2) True show ?thesis by simp
  qed
  show ?thesis
    unfolding fill_post_def using l1(1,3) b d l4 by blast
qed

subsection \<open>\<open>connect\<close> fills the stones joined to its cell\<close>

lemma stones_playable: "framed n p S t \<Longrightarrow> c \<in> S \<Longrightarrow> playable n c"
  unfolding framed_def stones_def by auto

lemma six_indices: "\<forall>i \<in> set [0, 1, 2, 3, 4, 5 :: int]. 0 \<le> i \<and> i < 6"
  by simp

lemma connect_fills:
  "1 \<le> n \<Longrightarrow> p = 0 \<or> p = 1 \<Longrightarrow> framed n p S t \<Longrightarrow> c \<in> S \<Longrightarrow> c \<notin> marked p t \<Longrightarrow>
     \<exists>r t'. connect p c t = Inr (r, t') \<and> only_marks p t t' \<and>
            fill_post n p S c (marked p t) r (marked p t')"
  "1 \<le> n \<Longrightarrow> p = 0 \<or> p = 1 \<Longrightarrow> framed n p S t \<Longrightarrow> c \<in> S \<Longrightarrow>
     \<forall>i \<in> set is. 0 \<le> i \<and> i < 6 \<Longrightarrow>
     \<exists>r t'. connect_loop p c is t = Inr (r, t') \<and> only_marks p t t' \<and>
            loop_post n p S c is (marked p t) r (marked p t')"
proof (induction p c t and p c "is" t rule: connect_connect_loop.induct)
  case (1 player position s)
  note n = "1.prems"(1) and p = "1.prems"(2) and f = "1.prems"(3)
    and c = "1.prems"(4) and nm = "1.prems"(5)
  note pl = stones_playable [OF f c]
  note gr = playable_range [OF n pl]
  from write_mark [OF f p gr] obtain cn where
    w: "put (connected s) (position * 2 + player) 1 = Inr cn"
    and f1: "framed n player S (s\<lparr>connected := cn\<rparr>)"
    and m1: "only_marks player s (s\<lparr>connected := cn\<rparr>)"
    and M1: "marked player (s\<lparr>connected := cn\<rparr>) = insert position (marked player s)"
    by blast
  let ?s1 = "s\<lparr>connected := cn\<rparr>"
  note g = goal_tests [OF f1 n gr(1)]
  have ge: "goal_edge player n position \<longleftrightarrow>
      (player = 0 \<and> position div (n + 2) = n) \<or> (player = 1 \<and> position mod (n + 2) = n)"
    by (simp add: goal_edge_def)
  show ?case
  proof (cases "goal_edge player n position")
    case True
    have "connect player position s = Inr (1, ?s1)"
      unfolding connect.simps [of player position s] w ebind_Inr Let_def g
      using True unfolding ge by auto
    moreover have "fill_post n player S position (marked player s) 1 (marked player ?s1)"
      unfolding M1 by (rule fill_post_goal [OF c True])
    ultimately show ?thesis using m1 by blast
  next
    case False
    then have ng: "\<not> (player = 0 \<and> position div (n + 2) = n)"
      "\<not> (player = 1 \<and> position mod (n + 2) = n)"
      unfolding ge by simp_all
    have run: "connect player position s = connect_loop player position [0, 1, 2, 3, 4, 5] ?s1"
      unfolding connect.simps [of player position s] w ebind_Inr Let_def g
      by (simp only: ng if_False)
    from "1.IH" [OF w refl g(1) ng(1) g(2) ng(2) n p f1 c six_indices]
    obtain r t' where l: "connect_loop player position [0, 1, 2, 3, 4, 5] ?s1 = Inr (r, t')"
      and m2: "only_marks player ?s1 t'"
      and lp: "loop_post n player S position [0, 1, 2, 3, 4, 5] (marked player ?s1) r (marked player t')"
      by blast
    have "fill_post n player S position (marked player s) r (marked player t')"
      by (rule fill_post_from_loop [OF lp [unfolded M1] c False])
    moreover have "only_marks player s t'" by (rule only_marks_trans [OF m1 m2])
    ultimately show ?thesis using run l by simp
  qed
next
  case (2 player position s)
  have "loop_post n player S position [] (marked player s) 0 (marked player s)"
    by (rule loop_post_nil)
  then show ?case using only_marks_refl [of player s] by simp
next
  case (3 player position i "is" s)
  note n = "3.prems"(1) and p = "3.prems"(2) and f = "3.prems"(3)
    and c = "3.prems"(4)
  from "3.prems"(5) have i: "0 \<le> i" "i < 6" and rest: "\<forall>j \<in> set is. 0 \<le> j \<and> j < 6"
    by simp_all
  define d where "d = hex_offsets n ! nat i"
  define nb where "nb = position + d"
  note rn = read_neighbors [OF f i, folded d_def]
  note pl = stones_playable [OF f c]
  note gr = neighbor_in_grid [OF n pl rn(2), folded nb_def]
  have adj: "nb - position \<in> set (hex_offsets n)" using rn(2) by (simp add: nb_def)
  from read_board [OF f p gr] obtain b where
    b: "at (board s) (nb * 2 + player) = Inr b" "b \<noteq> 0 \<longleftrightarrow> nb \<in> S" by blast
  from read_connected [OF f p gr] obtain m where
    m: "at (connected s) (nb * 2 + player) = Inr m" "m \<noteq> 0 \<longleftrightarrow> nb \<in> marked player s" by blast
  have unf: "connect_loop player position (i # is) s =
     (if b \<noteq> 0
      then (if m = 0
            then ebind (connect player nb s) (\<lambda>(r, s').
                   if r \<noteq> 0 then Inr (1, s') else connect_loop player position is s')
            else connect_loop player position is s)
      else connect_loop player position is s)"
    unfolding connect_loop.simps rn(1) ebind_Inr Let_def nb_def [symmetric] b(1) m(1) ..
  show ?case
  proof (cases "b \<noteq> 0")
    case False
    from "3.IH"(4) [OF rn(1) nb_def b(1) False n p f c rest]
    obtain r t' where l: "connect_loop player position is s = Inr (r, t')"
      and m2: "only_marks player s t'"
      and lp: "loop_post n player S position is (marked player s) r (marked player t')"
      by blast
    have "loop_post n player S position (i # is) (marked player s) r (marked player t')"
      by (rule loop_post_skip [OF lp]) (use False b(2) in \<open>simp add: nb_def d_def\<close>)
    then show ?thesis using l m2 False unfolding unf by simp
  next
    case True
    then have nbS: "nb \<in> S" using b(2) by simp
    show ?thesis
    proof (cases "m = 0")
      case False
      from "3.IH"(3) [OF rn(1) nb_def b(1) True m(1) False n p f c rest]
      obtain r t' where l: "connect_loop player position is s = Inr (r, t')"
        and m2: "only_marks player s t'"
        and lp: "loop_post n player S position is (marked player s) r (marked player t')"
        by blast
      have "loop_post n player S position (i # is) (marked player s) r (marked player t')"
        by (rule loop_post_skip [OF lp]) (use False m(2) in \<open>simp add: nb_def d_def\<close>)
      then show ?thesis using l m2 True False unfolding unf by simp
    next
      case m0: True
      then have nbM: "nb \<notin> marked player s" using m(2) by simp
      from "3.IH"(1) [OF rn(1) nb_def b(1) True m(1) m0 n p f nbS nbM]
      obtain r1 t1 where c1: "connect player nb s = Inr (r1, t1)"
        and m1: "only_marks player s t1"
        and fp: "fill_post n player S nb (marked player s) r1 (marked player t1)"
        by blast
      show ?thesis
      proof (cases "r1 \<noteq> 0")
        case True
        have "loop_post n player S position (i # is) (marked player s) 1 (marked player t1)"
          by (rule loop_post_found [OF fp True c nbS adj])
        then show ?thesis using c1 m1 True \<open>b \<noteq> 0\<close> m0 unfolding unf by simp
      next
        case False
        then have r10: "r1 = 0" by simp
        note f1 = framed_only_marks [OF f m1]
        from "3.IH"(2) [OF rn(1) nb_def b(1) \<open>b \<noteq> 0\<close> m(1) m0 c1 refl False n p f1 c rest]
        obtain r t' where l: "connect_loop player position is t1 = Inr (r, t')"
          and m2: "only_marks player t1 t'"
          and lp: "loop_post n player S position is (marked player t1) r (marked player t')"
          by blast
        have "loop_post n player S position (i # is) (marked player s) r (marked player t')"
          by (rule loop_post_continue [OF fp [unfolded r10] lp _ c nbS adj]) (simp add: nb_def d_def)
        moreover have "only_marks player s t'" by (rule only_marks_trans [OF m1 m2])
        ultimately show ?thesis using c1 l False \<open>b \<noteq> 0\<close> m0 unfolding unf by simp
      qed
    qed
  qed
qed

subsection \<open>Cells linked to the start edge\<close>

lemma linked_in_subset: "b \<in> linked_in n p S \<Longrightarrow> b \<in> S"
  unfolding linked_in_def using chain_subset by blast

lemma linked_in_start: "a \<in> S \<Longrightarrow> start_edge p n a \<Longrightarrow> a \<in> linked_in n p S"
  unfolding linked_in_def using chain.start by blast

lemma linked_in_extend:
  "b \<in> linked_in n p S \<Longrightarrow> b' \<in> S \<Longrightarrow> b' - b \<in> set (hex_offsets n) \<Longrightarrow> b' \<in> linked_in n p S"
  unfolding linked_in_def using chain.extend by blast

lemma linked_in_chain:
  "c \<in> linked_in n p S \<Longrightarrow> x \<in> chain n S c \<Longrightarrow> x \<in> linked_in n p S"
  unfolding linked_in_def using chain_trans by blast

lemma linked_in_mono:
  assumes "b \<in> linked_in n p S" and "S \<subseteq> T"
  shows "b \<in> linked_in n p T"
proof -
  from assms(1) obtain a where a: "a \<in> S" "start_edge p n a" "b \<in> chain n S a"
    unfolding linked_in_def by blast
  from chain_mono [OF a(3) assms(2)] a(1,2) assms(2) show ?thesis
    unfolding linked_in_def by blast
qed

lemma linked_in_closed:
  assumes b: "b \<in> linked_in n p S"
    and st: "\<And>a. a \<in> S \<Longrightarrow> start_edge p n a \<Longrightarrow> a \<in> X"
    and cl: "\<And>x y. x \<in> X \<Longrightarrow> x \<in> linked_in n p S \<Longrightarrow> y \<in> S \<Longrightarrow>
               y - x \<in> set (hex_offsets n) \<Longrightarrow> y \<in> X"
  shows "b \<in> X"
proof -
  from b obtain a where a: "a \<in> S" "start_edge p n a" and c: "b \<in> chain n S a"
    unfolding linked_in_def by blast
  from c have "b \<in> X \<and> b \<in> linked_in n p S"
  proof (induction rule: chain.induct)
    case start
    from st [OF a] linked_in_start [OF a] show ?case by simp
  next
    case (extend b b')
    from cl [of b b'] extend linked_in_extend [of b n p S b'] show ?case by blast
  qed
  then show ?thesis ..
qed

text \<open>A new stone that touches neither the start edge nor a linked stone links nothing.\<close>

lemma linked_in_isolated:
  assumes ns: "\<not> start_edge p n pos"
    and nl: "\<And>b. b \<in> linked_in n p S \<Longrightarrow> pos - b \<notin> set (hex_offsets n)"
  shows "linked_in n p (insert pos S) = linked_in n p S"
proof (intro set_eqI iffI)
  fix b assume "b \<in> linked_in n p S"
  then show "b \<in> linked_in n p (insert pos S)" by (rule linked_in_mono) blast
next
  fix b assume b: "b \<in> linked_in n p (insert pos S)"
  show "b \<in> linked_in n p S"
  proof (rule linked_in_closed [OF b])
    fix a assume "a \<in> insert pos S" "start_edge p n a"
    with ns have "a \<in> S" by auto
    then show "a \<in> linked_in n p S" using \<open>start_edge p n a\<close> by (rule linked_in_start)
  next
    fix x y assume x: "x \<in> linked_in n p S" and y: "y \<in> insert pos S"
      and d: "y - x \<in> set (hex_offsets n)"
    from nl [OF x] d have "y \<noteq> pos" by auto
    with y have "y \<in> S" by simp
    with x show "y \<in> linked_in n p S" using d by (rule linked_in_extend)
  qed
qed

text \<open>
  A completed fill from a new stone that is linked: the marks hold all the linked
  stones, and none of them is on the goal edge.
\<close>

lemma fill_covers:
  assumes fp: "fill_post n p (insert pos S) pos M 0 M'"
    and old: "\<And>x. x \<in> linked_in n p S \<Longrightarrow> x \<in> M"
    and old2: "\<And>x. x \<in> M \<Longrightarrow> x \<in> insert pos S \<Longrightarrow> x \<in> linked_in n p S"
    and b: "b \<in> linked_in n p (insert pos S)"
  shows "b \<in> M'"
proof -
  from fp have sub: "M \<subseteq> M'" and pos: "pos \<in> M'"
    unfolding fill_post_def by blast+
  from fp have cl: "y \<in> M'"
    if "x \<in> M' - M" "y \<in> insert pos S" "y - x \<in> set (hex_offsets n)" for x y
    using that unfolding fill_post_def by blast
  show ?thesis
  proof (rule linked_in_closed [OF b])
    fix a assume a: "a \<in> insert pos S" "start_edge p n a"
    show "a \<in> M'"
    proof (cases "a = pos")
      case True
      with pos show ?thesis by simp
    next
      case False
      with a have "a \<in> linked_in n p S" by (simp add: linked_in_start)
      with old [of a] sub show ?thesis by blast
    qed
  next
    fix x y assume x: "x \<in> M'" and xl: "x \<in> linked_in n p (insert pos S)"
      and y: "y \<in> insert pos S" and d: "y - x \<in> set (hex_offsets n)"
    show "y \<in> M'"
    proof (cases "x \<in> M")
      case False
      with x have "x \<in> M' - M" by simp
      then show ?thesis using y d by (rule cl)
    next
      case True
      from old2 [OF True linked_in_subset [OF xl]] have xs: "x \<in> linked_in n p S" .
      show ?thesis
      proof (cases "y = pos")
        case True
        with pos show ?thesis by simp
      next
        case False
        with y have "y \<in> S" by simp
        from linked_in_extend [OF xs this d] old sub show ?thesis by blast
      qed
    qed
  qed
qed

lemma fill_sound:
  assumes fp: "fill_post n p (insert pos S) pos M r M'"
    and pos: "pos \<in> linked_in n p (insert pos S)"
    and x: "x \<in> M' - M"
  shows "x \<in> linked_in n p (insert pos S)"
proof -
  from fp x have "x \<in> chain n (insert pos S) pos" unfolding fill_post_def by blast
  with pos show ?thesis by (rule linked_in_chain)
qed

lemma fill_no_goal:
  assumes fp: "fill_post n p (insert pos S) pos M 0 M'"
    and x: "x \<in> M' - M"
  shows "\<not> goal_edge p n x"
  using fp x unfolding fill_post_def by blast

lemma fill_goal:
  assumes fp: "fill_post n p (insert pos S) pos M r M'" and r: "r \<noteq> 0"
    and pos: "pos \<in> linked_in n p (insert pos S)"
  shows "\<exists>x \<in> linked_in n p (insert pos S). goal_edge p n x"
proof -
  from fp r obtain x where "x \<in> chain n (insert pos S) pos" "goal_edge p n x"
    unfolding fill_post_def by blast
  with linked_in_chain [OF pos] show ?thesis by blast
qed

lemma fill_post_result: "fill_post n p S c M r M' \<Longrightarrow> r = 0 \<or> r = 1"
  unfolding fill_post_def by blast

lemma fill_post_grows: "fill_post n p S c M r M' \<Longrightarrow> M \<subseteq> M'"
  unfolding fill_post_def by blast

lemma path_connects_linked:
  "path_connects p s \<longleftrightarrow> (\<exists>x \<in> linked p s. goal_edge p (BOARD_DIM s) x)"
  unfolding path_connects_def linked_def linked_in_def by blast

subsection \<open>What a placement does to the stones\<close>

lemma board_01:
  assumes v: "valid s" and p: "p = 0 \<or> p = 1"
    and c: "0 \<le> c" "c < (BOARD_DIM s + 2) * (BOARD_DIM s + 2)"
  shows "board s ! nat (c * 2 + p) = 0 \<or> board s ! nat (c * 2 + p) = 1"
proof -
  from cell_index_range [OF c p sizedD(2) [OF validD(1) [OF v]]]
  have "nat (c * 2 + p) < length (board s)" by simp
  then have "board s ! nat (c * 2 + p) \<in> set (board s)" by (rule nth_mem)
  then show ?thesis by (rule validD(9) [OF v])
qed

lemma stone_playable:
  assumes v: "valid s" and p: "p = 0 \<or> p = 1"
    and c: "0 \<le> c" "c < (BOARD_DIM s + 2) * (BOARD_DIM s + 2)"
    and b: "board s ! nat (c * 2 + p) \<noteq> 0"
  shows "playable (BOARD_DIM s) c"
proof -
  from board_01 [OF v p c] b have "board s ! nat (c * 2 + p) = 1" by simp
  with p have "board s ! nat (c * 2) = 1 \<or> board s ! nat (c * 2 + 1) = 1" by auto
  with validD(10) [OF v c] show ?thesis by blast
qed

lemma framed_valid:
  assumes v: "valid s" and p: "p = 0 \<or> p = 1"
  shows "framed (BOARD_DIM s) p (stones p s) s"
  unfolding framed_def stones_def
  using validD(1) [OF v] stone_playable [OF v p] by simp

lemma place_board:
  assumes v: "valid s" and rnd: "0 \<le> rand" and p: "player = 0 \<or> player = 1"
    and r: "place_piece_randomly rand player s = Inr (pos, s')"
  shows "playable (BOARD_DIM s) pos"
    and "board s' = (board s)[nat (pos * 2 + player) := 1]"
    and "board s ! nat (pos * 2) = 0" and "board s ! nat (pos * 2 + 1) = 0"
proof -
  note k = place_needs_open [OF v r]
  note res = place_result [OF v k rnd p]
  from res(1) r have pos: "pos = open_positions s ! nat (rand mod number_of_open_positions s)"
    by simp
  from res(1) r show "board s' = (board s)[nat (pos * 2 + player) := 1]"
    unfolding pos by auto
  from validD(6) [OF v res(2), folded pos]
  have pl: "playable (BOARD_DIM s) pos" and nm: "logical_of (BOARD_DIM s) pos \<notin> set (moves s)"
    by simp_all
  show "playable (BOARD_DIM s) pos" by (rule pl)
  note g = playable_range [OF validD(2) [OF v] pl]
  from validD(10) [OF v g] nm
  have "board s ! nat (pos * 2) \<noteq> 1" "board s ! nat (pos * 2 + 1) \<noteq> 1" by blast+
  with board_01 [OF v _ g, of 0] board_01 [OF v _ g, of 1]
  show "board s ! nat (pos * 2) = 0" and "board s ! nat (pos * 2 + 1) = 0" by simp_all
qed

lemma cell_index_neq:
  fixes c pos p q :: int
  assumes "0 \<le> c" "0 \<le> pos" "p = 0 \<or> p = 1" "q = 0 \<or> q = 1" "c \<noteq> pos \<or> p \<noteq> q"
  shows "nat (c * 2 + q) \<noteq> nat (pos * 2 + p)"
proof
  assume "nat (c * 2 + q) = nat (pos * 2 + p)"
  moreover have "0 \<le> c * 2 + q" "0 \<le> pos * 2 + p" using assms by auto
  ultimately have "c * 2 + q = pos * 2 + p" by simp
  with assms show False by presburger
qed

lemma place_stones:
  assumes v: "valid s" and rnd: "0 \<le> rand" and p: "player = 0 \<or> player = 1"
    and r: "place_piece_randomly rand player s = Inr (pos, s')"
  shows "stones player s' = insert pos (stones player s)"
    and "pos \<notin> stones player s"
    and "q = 0 \<or> q = 1 \<Longrightarrow> q \<noteq> player \<Longrightarrow> stones q s' = stones q s"
    and "marked q s' = marked q s"
proof -
  define n where "n = BOARD_DIM s"
  note pb = place_board [OF v rnd p r, folded n_def]
  note pc = place_connected [OF r, folded n_def]
  note g = playable_range [OF validD(2) [OF v, folded n_def] pb(1)]
  from cell_index_range [OF g p sizedD(2) [OF validD(1) [OF v], folded n_def]]
  have len: "nat (pos * 2 + player) < length (board s)" by simp
  show "marked q s' = marked q s" unfolding marked_def pc n_def [symmetric] ..
  show "pos \<notin> stones player s" using pb(3,4) p unfolding stones_def by auto
  show "stones player s' = insert pos (stones player s)"
  proof (intro set_eqI iffI)
    fix c assume "c \<in> stones player s'"
    then have c: "playable n c" "(board s)[nat (pos * 2 + player) := 1] ! nat (c * 2 + player) \<noteq> 0"
      unfolding stones_def pc pb(2) by simp_all
    show "c \<in> insert pos (stones player s)"
    proof (cases "c = pos")
      case False
      note gc = playable_range [OF validD(2) [OF v, folded n_def] c(1)]
      from cell_index_neq [OF gc(1) g(1) p p] False
      have "nat (c * 2 + player) \<noteq> nat (pos * 2 + player)" by simp
      with c show ?thesis unfolding stones_def n_def [symmetric] by simp
    qed simp
  next
    fix c assume "c \<in> insert pos (stones player s)"
    then consider "c = pos" | "c \<noteq> pos" "c \<in> stones player s" by blast
    then show "c \<in> stones player s'"
    proof cases
      case 1
      then show ?thesis unfolding stones_def pc pb(2) using pb(1) len by simp
    next
      case 2
      then have c: "playable n c" "board s ! nat (c * 2 + player) \<noteq> 0"
        unfolding stones_def n_def [symmetric] by simp_all
      note gc = playable_range [OF validD(2) [OF v, folded n_def] c(1)]
      from cell_index_neq [OF gc(1) g(1) p p] 2(1)
      have "nat (c * 2 + player) \<noteq> nat (pos * 2 + player)" by simp
      with c show ?thesis unfolding stones_def pc pb(2) by simp
    qed
  qed
  show "stones q s' = stones q s" if q: "q = 0 \<or> q = 1" "q \<noteq> player"
  proof -
    have "(board s)[nat (pos * 2 + player) := 1] ! nat (c * 2 + q) = board s ! nat (c * 2 + q)"
      if "playable n c" for c
    proof -
      note gc = playable_range [OF validD(2) [OF v, folded n_def] that]
      from cell_index_neq [OF gc(1) g(1) p q(1)] q(2)
      have "nat (c * 2 + q) \<noteq> nat (pos * 2 + player)" by simp
      then show ?thesis by simp
    qed
    then show ?thesis unfolding stones_def pc pb(2) n_def [symmetric] by auto
  qed
qed

lemma only_marks_frame:
  assumes m: "only_marks p s s'"
  shows "stones q s' = stones q s" and "linked q s' = linked q s"
    and "path_connects q s' = path_connects q s"
proof -
  note d = only_marksD [OF m]
  show st: "stones q s' = stones q s" unfolding stones_def d ..
  show "linked q s' = linked q s" unfolding linked_def st d ..
  show "path_connects q s' = path_connects q s" unfolding path_connects_def st d ..
qed

lemma only_marks_other:
  assumes m: "only_marks p s s'" and s: "sized s"
    and p: "p = 0 \<or> p = 1" and q: "q = 0 \<or> q = 1" and ne: "q \<noteq> p"
  shows "marked q s' = marked q s"
proof -
  note d = only_marksD [OF m]
  have "connected s' ! nat (c * 2 + q) = connected s ! nat (c * 2 + q)"
    if c: "0 \<le> c" "c < (BOARD_DIM s + 2) * (BOARD_DIM s + 2)" for c
  proof -
    from cell_index_range [OF c q sizedD(3) [OF s]]
    have r: "0 \<le> c * 2 + q" and l: "nat (c * 2 + q) < length (connected s)" by simp_all
    have "\<not> (\<exists>c'. int (nat (c * 2 + q)) = c' * 2 + p)"
    proof
      assume "\<exists>c'. int (nat (c * 2 + q)) = c' * 2 + p"
      then obtain c' where "int (nat (c * 2 + q)) = c' * 2 + p" ..
      with r have "c * 2 + q = c' * 2 + p" by simp
      with p q ne show False by presburger
    qed
    with d(8) [OF l] show ?thesis by blast
  qed
  then show ?thesis unfolding marked_def d by auto
qed

subsection \<open>\<open>winner\<close> on a framed object\<close>

lemma winner_loop_scan:
  assumes f: "framed n p S t" and n: "1 \<le> n" and p: "p = 0 \<or> p = 1"
    and pl: "playable n pos"
  shows "\<forall>i \<in> set is. 0 \<le> i \<and> i < 6 \<Longrightarrow>
     winner_loop p pos is t =
       (if \<exists>i \<in> set is. pos + hex_offsets n ! nat i \<in> marked p t
        then connect p pos t else Inr (0, t))"
proof (induction "is")
  case Nil
  show ?case by simp
next
  case (Cons i "is")
  from Cons.prems have i: "0 \<le> i" "i < 6" and rest: "\<forall>j \<in> set is. 0 \<le> j \<and> j < 6"
    by simp_all
  define d where "d = hex_offsets n ! nat i"
  note rn = read_neighbors [OF f i, folded d_def]
  note gr = neighbor_in_grid [OF n pl rn(2)]
  from read_connected [OF f p gr] obtain m where
    m: "at (connected t) ((pos + d) * 2 + p) = Inr m" "m \<noteq> 0 \<longleftrightarrow> pos + d \<in> marked p t"
    by blast
  have unf: "winner_loop p pos (i # is) t =
      (if m \<noteq> 0 then connect p pos t else winner_loop p pos is t)"
    unfolding winner_loop.simps rn(1) ebind_Inr Let_def m(1) ..
  show ?case
  proof (cases "m \<noteq> 0")
    case True
    with m(2) have "pos + hex_offsets n ! nat i \<in> marked p t" by (simp add: d_def)
    then have e: "(\<exists>j \<in> set (i # is). pos + hex_offsets n ! nat j \<in> marked p t) \<longleftrightarrow> True"
      by simp
    show ?thesis unfolding unf e using True by simp
  next
    case False
    with m(2) have "pos + hex_offsets n ! nat i \<notin> marked p t" by (simp add: d_def)
    then have e: "(\<exists>j \<in> set (i # is). pos + hex_offsets n ! nat j \<in> marked p t)
       \<longleftrightarrow> (\<exists>j \<in> set is. pos + hex_offsets n ! nat j \<in> marked p t)" by simp
    show ?thesis unfolding unf e using False Cons.IH [OF rest] by simp
  qed
qed

lemma six_offsets:
  "(\<exists>i \<in> set [0, 1, 2, 3, 4, 5 :: int]. P (hex_offsets n ! nat i)) \<longleftrightarrow>
   (\<exists>d \<in> set (hex_offsets n). P d)"
  unfolding bex_hex_offsets by (simp add: hex_offsets_def)

lemma winner_scan:
  assumes f: "framed n p S t" and n: "1 \<le> n" and p: "p = 0 \<or> p = 1"
    and pl: "playable n pos"
  shows "winner p pos t =
       (if \<exists>d \<in> set (hex_offsets n). pos + d \<in> marked p t
        then connect p pos t else Inr (0, t))"
  unfolding winner_def winner_loop_scan [OF f n p pl six_indices]
    six_offsets [of "\<lambda>d. pos + d \<in> marked p t" n] ..

subsection \<open>The marks of a fresh object\<close>

lemma stones_fresh:
  assumes s: "sized s" and n: "1 \<le> BOARD_DIM s" and p: "p = 0 \<or> p = 1"
  shows "stones p (fresh s) = {}"
proof -
  note v = valid_fresh [OF s n]
  have False if c: "c \<in> stones p (fresh s)" for c
  proof -
    from c have pl: "playable (BOARD_DIM (fresh s)) c" and b: "board (fresh s) ! nat (c * 2 + p) \<noteq> 0"
      unfolding stones_def by simp_all
    note g = playable_range [OF validD(2) [OF v] pl]
    from board_01 [OF v p g] b have "board (fresh s) ! nat (c * 2 + p) = 1" by simp
    with p have "board (fresh s) ! nat (c * 2) = 1 \<or> board (fresh s) ! nat (c * 2 + 1) = 1"
      by auto
    with validD(10) [OF v g] have "logical_of (BOARD_DIM (fresh s)) c \<in> set (moves (fresh s))"
      by blast
    then show False by simp
  qed
  then show ?thesis by blast
qed

lemma marked_fresh:
  assumes s: "sized s" and n: "1 \<le> BOARD_DIM s" and p: "p = 0 \<or> p = 1"
    and c: "0 \<le> c" "c < (BOARD_DIM s + 2) * (BOARD_DIM s + 2)"
  shows "c \<in> marked p (fresh s) \<longleftrightarrow> start_sentinel p (BOARD_DIM s) c"
proof -
  define n where "n = BOARD_DIM s"
  define k where "k = nat (c * 2 + p)"
  define sz where "sz = (n + 2) * (n + 2)"
  have e: "2 * (n + 2) * (n + 2) = 2 * sz" by (simp add: sz_def)
  have "c * 2 + p < 2 * sz" using c p unfolding sz_def n_def by auto
  then have kl: "k < nat (2 * sz)" using c p unfolding k_def by auto
  have ik: "int k = c * 2 + p" using c p unfolding k_def by auto
  have ev: "even k \<longleftrightarrow> p = 0"
  proof -
    have "even (int k) \<longleftrightarrow> p = 0" unfolding ik using p by auto
    then show ?thesis by simp
  qed
  have dv: "int k div 2 = c" unfolding ik using p by auto
  have w: "0 < n + 2" using assms(2) unfolding n_def by linarith
  have z: "c < n + 2 \<longleftrightarrow> c div (n + 2) = 0"
    using c(1) w by (auto simp: zdiv_eq_0_iff)
  have "fresh_connected n ! k =
     (if even k then (if int k div 2 < n + 2 then 1 else 0)
      else (if (int k div 2) mod (n + 2) = 0 then 1 else 0))"
    unfolding fresh_connected_def e using kl by simp
  then have "fresh_connected n ! k \<noteq> 0 \<longleftrightarrow> start_sentinel p n c"
    unfolding ev dv start_sentinel_def using p z by auto
  then show ?thesis
    unfolding marked_def using c by (simp add: n_def k_def)
qed

lemma exact_cong:
  assumes "BOARD_DIM s' = BOARD_DIM s" "stones q s' = stones q s" "marked q s' = marked q s"
  shows "exact_marks q s' = exact_marks q s" and "path_connects q s' = path_connects q s"
  unfolding exact_marks_def path_connects_def linked_def assms by simp_all

lemma exact_fresh:
  assumes s: "sized s" and n: "1 \<le> BOARD_DIM s" and p: "p = 0 \<or> p = 1"
  shows "exact_marks p (fresh s)" and "\<not> path_connects p (fresh s)"
proof -
  have l: "linked p (fresh s) = {}"
    unfolding linked_def linked_in_def stones_fresh [OF s n p] by simp
  show "\<not> path_connects p (fresh s)" unfolding path_connects_linked l by simp
  show "exact_marks p (fresh s)"
    unfolding exact_marks_def l
    using marked_fresh [OF s n p] sentinel_not_playable [of p "BOARD_DIM s"] by auto
qed

subsection \<open>One move of a game\<close>

lemma exact_marksD:
  assumes "exact_marks p s" and "0 \<le> c" "c < (BOARD_DIM s + 2) * (BOARD_DIM s + 2)"
  shows "playable (BOARD_DIM s) c \<Longrightarrow> c \<in> marked p s \<longleftrightarrow> c \<in> linked p s"
    and "\<not> playable (BOARD_DIM s) c \<Longrightarrow> c \<in> marked p s \<longleftrightarrow> start_sentinel p (BOARD_DIM s) c"
  using assms unfolding exact_marks_def by simp_all

lemma marked_in_grid:
  "c \<in> marked p s \<Longrightarrow> 0 \<le> c \<and> c < (BOARD_DIM s + 2) * (BOARD_DIM s + 2)"
  unfolding marked_def by simp

lemma move_exact:
  assumes v: "valid s" and e: "exact_marks player s" and np: "\<not> path_connects player s"
    and p: "player = 0 \<or> player = 1" and rnd: "0 \<le> rand"
    and r: "place_piece_randomly rand player s = Inr (pos, s1)"
  shows "\<exists>r s2. winner player pos s1 = Inr (r, s2) \<and> only_marks player s1 s2 \<and>
           (r = 0 \<or> r = 1) \<and> (r \<noteq> 0 \<longleftrightarrow> path_connects player s1) \<and>
           (r = 0 \<longrightarrow> exact_marks player s2)"
proof -
  define n where "n = BOARD_DIM s"
  define S where "S = stones player s"
  define M where "M = marked player s"
  define L where "L = linked_in n player S"
  note n1 = validD(2) [OF v, folded n_def]
  note v1 = valid_place [OF v rnd p r]
  note pc = place_connected [OF r, folded n_def]
  note ps = place_stones [OF v rnd p r, folded S_def M_def]
  note pl = place_board(1) [OF v rnd p r, folded n_def]
  note f1 = framed_valid [OF v1 p, unfolded pc ps(1)]
  have M1: "marked player s1 = M" unfolding M_def by (rule ps(4))
  have Ls: "linked player s = L" unfolding linked_def L_def n_def S_def ..
  have L1: "linked player s1 = linked_in n player (insert pos S)"
    unfolding linked_def pc ps(1) ..
  have Splay: "playable n x" if "x \<in> insert pos S" for x
    using that stones_playable [OF f1] by blast
  have grid: "0 \<le> x" "x < (n + 2) * (n + 2)" if "playable n x" for x
    using playable_range [OF n1 that] by simp_all
  have exP: "x \<in> M \<longleftrightarrow> x \<in> L" if "playable n x" for x
    using exact_marksD(1) [OF e, folded n_def M_def, unfolded Ls, OF grid [OF that] that] .
  have exN: "x \<in> M \<longleftrightarrow> start_sentinel player n x"
    if "0 \<le> x" "x < (n + 2) * (n + 2)" "\<not> playable n x" for x
    using exact_marksD(2) [OF e, folded n_def M_def, OF that] .
  have old: "x \<in> M" if "x \<in> L" for x
  proof -
    from that have "x \<in> S" unfolding L_def by (rule linked_in_subset)
    then have "playable n x" using Splay by simp
    from exP [OF this] that show ?thesis by simp
  qed
  have old2: "x \<in> L" if "x \<in> M" "x \<in> insert pos S" for x
    using exP [OF Splay [OF that(2)]] that(1) by simp
  have nogoal: "\<not> goal_edge player n x" if "x \<in> L" for x
    using np that unfolding path_connects_linked Ls n_def [symmetric] by blast
  have posM: "pos \<notin> M"
  proof
    assume "pos \<in> M"
    from old2 [OF this] have "pos \<in> L" by simp
    then have "pos \<in> S" unfolding L_def by (rule linked_in_subset)
    with ps(2) show False by simp
  qed
  note ws = winner_scan [OF f1 n1 p pl, unfolded M1]
  show ?thesis
  proof (cases "\<exists>d \<in> set (hex_offsets n). pos + d \<in> M")
    case False
    then have w: "winner player pos s1 = Inr (0, s1)" unfolding ws by simp
    have ns: "\<not> start_edge player n pos"
    proof
      assume "start_edge player n pos"
      with start_edge_iff_sentinel_neighbor [OF n1 pl p]
      obtain d where d: "d \<in> set (hex_offsets n)" "start_sentinel player n (pos + d)" by blast
      note g = neighbor_in_grid [OF n1 pl d(1)]
      from exN [OF g sentinel_not_playable [OF d(2)]] d(2) have "pos + d \<in> M" by simp
      with False d(1) show False by blast
    qed
    have nl: "pos - b \<notin> set (hex_offsets n)" if "b \<in> linked_in n player S" for b
    proof
      assume "pos - b \<in> set (hex_offsets n)"
      from hex_offsets_sym [OF this] have d: "b - pos \<in> set (hex_offsets n)" by simp
      have "pos + (b - pos) = b" by simp
      moreover from that have "b \<in> M" unfolding L_def [symmetric] by (rule old)
      ultimately have "pos + (b - pos) \<in> M" by simp
      with False d show False by blast
    qed
    have L1': "linked player s1 = L"
      unfolding L1 L_def by (rule linked_in_isolated [OF ns nl])
    have "\<not> path_connects player s1"
      unfolding path_connects_linked L1' pc using nogoal by blast
    moreover have "exact_marks player s1"
      using e unfolding exact_marks_def pc M1 L1' Ls M_def [symmetric] n_def [symmetric] .
    ultimately show ?thesis using w only_marks_refl [of player s1] by simp
  next
    case True
    then obtain d where d: "d \<in> set (hex_offsets n)" "pos + d \<in> M" by blast
    from True have w: "winner player pos s1 = connect player pos s1" unfolding ws by simp
    have posS: "pos \<in> insert pos S" by simp
    from connect_fills(1) [OF n1 p f1 posS, unfolded M1, OF posM]
    obtain r t where c: "connect player pos s1 = Inr (r, t)"
      and om: "only_marks player s1 t"
      and fp: "fill_post n player (insert pos S) pos M r (marked player t)"
      by blast
    note fr = only_marks_frame [OF om, of player]
    note dm = only_marksD [OF om]
    have posL: "pos \<in> linked_in n player (insert pos S)"
    proof (cases "playable n (pos + d)")
      case True
      from exP [OF True] d(2) have "pos + d \<in> linked_in n player S" by (simp add: L_def)
      then have a: "pos + d \<in> linked_in n player (insert pos S)" by (rule linked_in_mono) blast
      have b: "pos - (pos + d) \<in> set (hex_offsets n)"
        using hex_offsets_sym [OF d(1)] by simp
      show ?thesis by (rule linked_in_extend [OF a posS b])
    next
      case False
      note g = neighbor_in_grid [OF n1 pl d(1)]
      from exN [OF g False] d(2) have "start_sentinel player n (pos + d)" by simp
      with start_edge_iff_sentinel_neighbor [OF n1 pl p] d(1)
      have "start_edge player n pos" by blast
      with posS show ?thesis by (rule linked_in_start)
    qed
    have res: "r = 0 \<or> r = 1" by (rule fill_post_result [OF fp])
    have yes: "path_connects player s1" if "r \<noteq> 0"
      unfolding path_connects_linked L1 pc by (rule fill_goal [OF fp that posL])
    have no: "\<not> path_connects player s1" if r0: "r = 0"
    proof
      assume "path_connects player s1"
      then obtain x where x: "x \<in> linked_in n player (insert pos S)" "goal_edge player n x"
        unfolding path_connects_linked L1 pc by blast
      from fill_covers [OF fp [unfolded r0] old [unfolded L_def] old2 [unfolded L_def] x(1)]
      have xm: "x \<in> marked player t" .
      show False
      proof (cases "x \<in> M")
        case True
        from nogoal [OF old2 [OF True linked_in_subset [OF x(1)]]] x(2) show False ..
      next
        case False
        with xm have "x \<in> marked player t - M" by simp
        from fill_no_goal [OF fp [unfolded r0] this] x(2) show False ..
      qed
    qed
    have ex: "exact_marks player t" if r0: "r = 0"
    proof -
      have "x \<in> marked player t \<longleftrightarrow>
          (if playable n x then x \<in> linked_in n player (insert pos S)
           else start_sentinel player n x)"
        if g: "0 \<le> x" "x < (n + 2) * (n + 2)" for x
      proof (cases "playable n x")
        case True
        have "x \<in> linked_in n player (insert pos S)" if xm: "x \<in> marked player t"
        proof (cases "x \<in> M")
          case True
          from exP [OF \<open>playable n x\<close>] True have "x \<in> linked_in n player S" by (simp add: L_def)
          then show ?thesis by (rule linked_in_mono) blast
        next
          case False
          with xm have "x \<in> marked player t - M" by simp
          then show ?thesis by (rule fill_sound [OF fp posL])
        qed
        moreover have "x \<in> marked player t" if "x \<in> linked_in n player (insert pos S)"
          by (rule fill_covers [OF fp [unfolded r0] old [unfolded L_def] old2 [unfolded L_def] that])
        ultimately show ?thesis using True by auto
      next
        case False
        have "x \<in> marked player t \<longleftrightarrow> x \<in> M"
        proof
          assume xm: "x \<in> marked player t"
          show "x \<in> M"
          proof (rule ccontr)
            assume "x \<notin> M"
            with xm have "x \<in> marked player t - M" by simp
            from linked_in_subset [OF fill_sound [OF fp posL this]] Splay False
            show False by blast
          qed
        next
          assume "x \<in> M"
          with fill_post_grows [OF fp] show "x \<in> marked player t" by blast
        qed
        with exN [OF g False] False show ?thesis by simp
      qed
      then show ?thesis
        unfolding exact_marks_def fr L1 dm n_def [symmetric] pc by simp
    qed
    from c om res yes no ex show ?thesis unfolding w by blast
  qed
qed

subsection \<open>The marks of a game in progress are exact\<close>

lemma in_play_exact:
  "in_play s \<Longrightarrow> valid s \<and> exact_marks 0 s \<and> exact_marks 1 s \<and>
     \<not> path_connects 0 s \<and> \<not> path_connects 1 s"
proof (induction rule: in_play.induct)
  case (opened dim s)
  from HexGame_fresh [OF opened(1)] opened(2) have v: "valid s" by simp
  let ?s0 = "\<lparr>BOARD_DIM = dim,
           board = replicate (nat ((dim + 2) * (dim + 2) * 2)) 0,
           open_positions = replicate (nat (dim * dim)) 0,
           number_of_open_positions = 0,
           moves = replicate (nat (dim * dim)) 0,
           connected = replicate (nat ((dim + 2) * (dim + 2) * 2)) 0,
           neighbors = [- (dim + 2) + 1, - (dim + 2), - 1, 1, dim + 2, (dim + 2) - 1]\<rparr>"
  have a: "0 \<le> (dim + 2) * (dim + 2) * 2" using opened(1) by simp
  have s0: "sized ?s0"
    unfolding sized_def Let_def using opened(1) a by (simp add: algebra_simps)
  have n0: "1 \<le> BOARD_DIM ?s0" using opened(1) by simp
  have "HexGame dim = Inr (fresh ?s0)"
    unfolding HexGame_def by (rule init_fresh [OF s0])
  with opened(2) have s: "s = fresh ?s0" by simp
  from exact_fresh [OF s0 n0, of 0] exact_fresh [OF s0 n0, of 1] v
  show ?case unfolding s by simp
next
  case (reopened s u s')
  note v = reachable_valid [OF reopened(1)]
  from init_fresh [OF validD(1) [OF v]] reopened(2) have s': "s' = fresh s" by simp
  from exact_fresh [OF validD(1,2) [OF v], of 0] exact_fresh [OF validD(1,2) [OF v], of 1]
    valid_fresh [OF validD(1,2) [OF v]]
  show ?case unfolding s' by simp
next
  case (moved s player rand pos s1 s2)
  from moved.IH have v: "valid s" and e: "exact_marks 0 s" "exact_marks 1 s"
    and np: "\<not> path_connects 0 s" "\<not> path_connects 1 s" by simp_all
  note p = moved.hyps(2) and rnd = moved.hyps(3) and pl = moved.hyps(4) and w = moved.hyps(5)
  have ep: "exact_marks player s" and npp: "\<not> path_connects player s"
    using p e np by auto
  from move_exact [OF v ep npp p rnd pl] w
  have om: "only_marks player s1 s2" and np2: "\<not> path_connects player s1"
    and e2: "exact_marks player s2"
    by auto
  note v1 = valid_place [OF v rnd p pl]
  note v2 = valid_only_marks [OF v1 om]
  note fr = only_marks_frame [OF om]
  note dm = only_marksD [OF om]
  note pc = place_connected [OF pl]
  from np2 have np2': "\<not> path_connects player s2" unfolding fr .
  define q where "q = 1 - player"
  have q: "q = 0 \<or> q = 1" "q \<noteq> player" using p by (auto simp: q_def)
  have st: "stones q s2 = stones q s"
    unfolding fr by (rule place_stones(3) [OF v rnd p pl q])
  have mk: "marked q s2 = marked q s"
    unfolding only_marks_other [OF om validD(1) [OF v1] p q]
    by (rule place_stones(4) [OF v rnd p pl])
  have bd: "BOARD_DIM s2 = BOARD_DIM s" unfolding dm pc ..
  note cg = exact_cong [OF bd st mk]
  have eq: "exact_marks q s2" and nq: "\<not> path_connects q s2"
    unfolding cg using q(1) p e np by (auto simp: q_def)
  from p show ?case
  proof
    assume "player = 0"
    then have "q = 1" by (simp add: q_def)
    with v2 e2 np2' eq nq \<open>player = 0\<close> show ?thesis by simp
  next
    assume "player = 1"
    then have "q = 0" by (simp add: q_def)
    with v2 e2 np2' eq nq \<open>player = 1\<close> show ?thesis by simp
  qed
qed

lemma in_play_game2_first_marked: "in_play game2_first_marked"
proof -
  have "in_play game2" by (rule in_play.opened [OF _ HexGame_2]) simp
  then show ?thesis
    by (rule in_play.moved [OF _ _ _ place_game2 winner_game2_first]) simp_all
qed

subsection \<open>The reference flood fill\<close>

lemma inflate_fixpoint:
  fixes g :: "'a set \<Rightarrow> 'a set"
  assumes fin: "finite U"
    and g: "\<And>X. X \<subseteq> U \<Longrightarrow> X \<subseteq> g X \<and> g X \<subseteq> U"
    and X: "X \<subseteq> U"
  shows "g ((g ^^ card U) X) = (g ^^ card U) X"
proof -
  have sub: "(g ^^ k) X \<subseteq> U" for k
    by (induction k) (use X g in auto)
  have P: "g ((g ^^ k) X) = (g ^^ k) X \<or> k \<le> card ((g ^^ k) X)" for k
  proof (induction k)
    case 0
    show ?case by simp
  next
    case (Suc k)
    show ?case
    proof (cases "g ((g ^^ k) X) = (g ^^ k) X")
      case True
      then show ?thesis by simp
    next
      case False
      with Suc have k: "k \<le> card ((g ^^ k) X)" by simp
      from g [OF sub [of k]] False have "(g ^^ k) X \<subset> g ((g ^^ k) X)" by blast
      moreover have "finite (g ((g ^^ k) X))"
        using g [OF sub [of k]] fin by (meson finite_subset)
      ultimately have "card ((g ^^ k) X) < card (g ((g ^^ k) X))" by (rule psubset_card_mono [rotated])
      with k show ?thesis by simp
    qed
  qed
  from P [of "card U"] show ?thesis
  proof
    assume "card U \<le> card ((g ^^ card U) X)"
    with card_seteq [OF fin sub [of "card U"]] have e: "(g ^^ card U) X = U" by simp
    from g [of U] show ?thesis unfolding e by blast
  qed
qed

lemma has_stone_stones: "has_stone p s c \<longleftrightarrow> c \<in> stones p s"
  unfolding has_stone_def stones_def by simp

lemma set_grid: "set (grid n) = {c. 0 \<le> c \<and> c < (n + 2) * (n + 2)}"
  unfolding grid_def by auto

lemma set_spread:
  "set (spread p s xs) =
     {c \<in> set (grid (BOARD_DIM s)).
        c \<in> set xs \<or> c \<in> stones p s \<and> (\<exists>d \<in> set (hex_offsets (BOARD_DIM s)). c - d \<in> set xs)}"
  unfolding spread_def has_stone_stones by simp

lemma set_spread_funpow:
  "set ((spread p s ^^ k) xs) = ((\<lambda>X. {c \<in> set (grid (BOARD_DIM s)).
        c \<in> X \<or> c \<in> stones p s \<and> (\<exists>d \<in> set (hex_offsets (BOARD_DIM s)). c - d \<in> X)}) ^^ k) (set xs)"
  by (induction k) (simp_all add: set_spread)

lemma spread_times_funpow: "spread_times k p s xs = (spread p s ^^ k) xs"
  by (induction k arbitrary: xs) (simp_all add: funpow_swap1)

lemma flood_fill_linked:
  assumes n: "1 \<le> BOARD_DIM s"
  shows "set (flood_fill p s) = linked p s"
proof -
  define n where "n = BOARD_DIM s"
  define S where "S = stones p s"
  define U where "U = set (grid n)"
  define g where "g X = {c \<in> U. c \<in> X \<or> c \<in> S \<and> (\<exists>d \<in> set (hex_offsets n). c - d \<in> X)}" for X
  define X0 where "X0 = {c \<in> U. c \<in> S \<and> start_edge p n c}"
  define K where "K = length (grid n)"
  have n1: "1 \<le> n" using assms by (simp add: n_def)
  have SU: "c \<in> U" if "c \<in> S" for c
  proof -
    from that have "playable n c" unfolding S_def stones_def n_def by simp
    from playable_range [OF n1 this] show ?thesis unfolding U_def set_grid by simp
  qed
  have ff: "set (flood_fill p s) = (g ^^ K) X0"
  proof -
    have "g = (\<lambda>X. {c \<in> set (grid (BOARD_DIM s)).
        c \<in> X \<or> c \<in> stones p s \<and> (\<exists>d \<in> set (hex_offsets (BOARD_DIM s)). c - d \<in> X)})"
      unfolding g_def U_def S_def n_def ..
    moreover have "set (filter (\<lambda>c. has_stone p s c \<and> start_edge p (BOARD_DIM s) c)
          (grid (BOARD_DIM s))) = X0"
      unfolding X0_def U_def S_def n_def has_stone_stones by simp
    ultimately show ?thesis
      unfolding flood_fill_def spread_times_funpow set_spread_funpow K_def n_def by simp
  qed
  have fin: "finite U" unfolding U_def by simp
  have dist: "distinct (grid n)" unfolding grid_def by simp
  have K: "K = card U" unfolding K_def U_def using distinct_card [OF dist] by simp
  have gi: "X \<subseteq> g X \<and> g X \<subseteq> U" if "X \<subseteq> U" for X
    using that unfolding g_def by blast
  have X0: "X0 \<subseteq> U" unfolding X0_def by blast
  have fixed: "g ((g ^^ K) X0) = (g ^^ K) X0"
    unfolding K by (rule inflate_fixpoint [OF fin gi X0])
  have grow: "X0 \<subseteq> (g ^^ k) X0" for k
  proof (induction k)
    case (Suc k)
    have "(g ^^ k) X0 \<subseteq> U" by (induction k) (use X0 gi in auto)
    from gi [OF this] Suc show ?case by auto
  qed simp
  have sound: "(g ^^ k) X0 \<subseteq> linked_in n p S" for k
  proof (induction k)
    case 0
    show ?case unfolding X0_def using linked_in_start [of _ S p n] by auto
  next
    case (Suc k)
    have "c \<in> linked_in n p S" if "c \<in> g ((g ^^ k) X0)" for c
    proof -
      from that consider "c \<in> (g ^^ k) X0"
        | d where "c \<in> S" "d \<in> set (hex_offsets n)" "c - d \<in> (g ^^ k) X0"
        unfolding g_def by blast
      then show ?thesis
      proof cases
        case 1
        with Suc show ?thesis by blast
      next
        case 2
        from 2(3) Suc have a: "c - d \<in> linked_in n p S" by blast
        have b: "c - (c - d) \<in> set (hex_offsets n)" using 2(2) by simp
        show ?thesis by (rule linked_in_extend [OF a 2(1) b])
      qed
    qed
    then show ?case by auto
  qed
  have complete: "b \<in> (g ^^ K) X0" if b: "b \<in> linked_in n p S" for b
  proof (rule linked_in_closed [OF b])
    fix a assume "a \<in> S" "start_edge p n a"
    with SU have "a \<in> X0" unfolding X0_def by simp
    with grow [of K] show "a \<in> (g ^^ K) X0" by blast
  next
    fix x y assume x: "x \<in> (g ^^ K) X0" and y: "y \<in> S" and d: "y - x \<in> set (hex_offsets n)"
    have "y - (y - x) \<in> (g ^^ K) X0" using x by simp
    with y d SU [OF y] have "y \<in> g ((g ^^ K) X0)" unfolding g_def by blast
    then show "y \<in> (g ^^ K) X0" unfolding fixed .
  qed
  show ?thesis
    unfolding ff linked_def n_def [symmetric] S_def [symmetric]
    using sound [of K] complete by blast
qed

lemma reference_win_path:
  assumes "1 \<le> BOARD_DIM s"
  shows "reference_win p s \<longleftrightarrow> path_connects p s"
  unfolding reference_win_def path_connects_linked flood_fill_linked [OF assms] ..

lemma reference_game2_column: "reference_win 0 game2_column"
  by code_simp

lemma reference_game2_first_marked: "\<not> reference_win 0 game2_first_marked"
  by code_simp

subsection \<open>Objects on which the marks are stale\<close>

lemma place_game2_unchecked: "place_piece_randomly 2 0 game2_first = Inr (9, game2_unchecked)"
  by code_simp

lemma winner_game2_unchecked: "winner 0 9 game2_unchecked = Inr (0, game2_unchecked)"
  by code_simp

lemma reference_game2_unchecked: "reference_win 0 game2_unchecked"
  by code_simp

lemma reachable_game2_unchecked: "reachable game2_unchecked 0"
  by (rule reachable.placed [OF reachable_game2_first _ _ place_game2_unchecked]) simp_all

lemma remove_game2_first_marked:
  "remove_last_n_moves 1 game2_first_marked = Inr ([0], game2_marked_rewound)"
  by code_simp

lemma place_game2_marked_rewound:
  "place_piece_randomly 2 0 game2_marked_rewound = Inr (9, game2_stale)"
  by code_simp

lemma winner_game2_stale: "winner 0 9 game2_stale = Inr (1, game2_stale_won)"
  by code_simp

lemma reference_game2_stale: "\<not> reference_win 0 game2_stale"
  by code_simp

lemma reachable_game2_marked_rewound: "reachable game2_marked_rewound 1"
  using reachable.undone [OF reachable_game2_first_marked remove_game2_first_marked] by simp

lemma reachable_game2_stale: "reachable game2_stale 1"
  by (rule reachable.placed [OF reachable_game2_marked_rewound _ _ place_game2_marked_rewound])
    simp_all

section \<open>The claims\<close>

subsection \<open>C5: what \<open>place_piece_randomly\<close> returns\<close>

text \<open>
  Claim C5 as stated: whenever an open cell exists, the value \<open>place_piece_randomly\<close>
  returns is the logical position of the cell it occupied and equals the index it
  appends to the move history.  On the fresh 2 by 2 board with \<open>rand() = 0\<close> the call
  returns 5, the padded index of the cell, and appends the logical index 0.
\<close>

theorem place_returns_padded_counterexample:
  "HexGame 2 = Inr game2 \<and> moves game2 = [] \<and>
   place_piece_randomly 0 0 game2 = Inr (5, game2_first) \<and> moves game2_first = [0]"
  by (simp add: HexGame_2 place_game2) (simp add: game2_def game2_first_def)

text \<open>
  C5 (amended): on every reachable object with an open cell, \<open>place_piece_randomly\<close>
  returns the padded index \<open>pos\<close> of the playable cell it occupied (the value the
  driver hands to \<open>winner\<close>), sets that cell's flag of the player, and appends to the
  history the logical index of that cell, \<open>(pos div (N+2) - 1) * N + (pos mod (N+2) - 1)\<close>,
  which lies in \<open>0 ..< N * N\<close> and from which \<open>padded_of\<close> gives \<open>pos\<close> back.
\<close>

theorem place_returns_padded:
  assumes "reachable s u" and "0 < number_of_open_positions s"
    and "0 \<le> rand" and "player = 0 \<or> player = 1"
  shows "\<exists>pos s'. place_piece_randomly rand player s = Inr (pos, s') \<and>
           playable (BOARD_DIM s) pos \<and>
           board s' = (board s)[nat (pos * 2 + player) := 1] \<and>
           moves s' = moves s @ [logical_of (BOARD_DIM s) pos] \<and>
           logical_of (BOARD_DIM s) pos
             = (pos div (BOARD_DIM s + 2) - 1) * BOARD_DIM s + (pos mod (BOARD_DIM s + 2) - 1) \<and>
           0 \<le> logical_of (BOARD_DIM s) pos \<and>
           logical_of (BOARD_DIM s) pos < BOARD_DIM s * BOARD_DIM s \<and>
           padded_of (BOARD_DIM s) (logical_of (BOARD_DIM s) pos) = pos"
proof -
  note v = reachable_valid [OF assms(1)]
  note res = place_result [OF v assms(2,3,4)]
  let ?pos = "open_positions s ! nat (rand mod number_of_open_positions s)"
  from validD(6) [OF v res(2)] have pl: "playable (BOARD_DIM s) ?pos" by simp
  note lp = logical_of_playable [OF validD(2) [OF v] pl]
  show ?thesis
    unfolding res(1) using pl lp by (simp add: logical_of_def)
qed

theorem place_returns_padded_witness:
  "reachable game2 0 \<and> 0 < number_of_open_positions game2 \<and>
   (\<exists>pos s'. place_piece_randomly 0 0 game2 = Inr (pos, s') \<and>
      moves s' = moves game2 @ [logical_of (BOARD_DIM game2) pos] \<and>
      padded_of (BOARD_DIM game2) (logical_of (BOARD_DIM game2) pos) = pos)"
proof -
  have o: "0 < number_of_open_positions game2" by (simp add: game2_def)
  from place_returns_padded [OF reachable_game2 o, of 0 0]
  show ?thesis using reachable_game2 o by auto
qed

subsection \<open>C2: \<open>place_piece_randomly\<close> on a full board\<close>

text \<open>
  Claim C2 as stated: with zero open cells \<open>place_piece_randomly\<close> fails with an
  ExhaustedBoard condition that is reported at once.  The function has no test of
  \<open>number_of_open_positions\<close> and reports nothing: on the full 1 by 1 board it
  evaluates \<open>rand() % 0\<close>, whose behaviour C++ leaves undefined.
\<close>

theorem place_on_full_board_counterexample:
  "HexGame 1 = Inr game1 \<and> place_piece_randomly 0 0 game1 = Inr (4, game1_full) \<and>
   full_board game1_full \<and>
   place_piece_randomly 0 1 game1_full = Inl DivisionByZero"
  by (simp add: HexGame_1 place_game1)
     (simp add: full_board_def game1_full_def place_piece_randomly_def c_mod_def)

text \<open>
  C2 (amended): \<open>place_piece_randomly\<close> performs no check.  On a reachable object with
  zero open cells it computes a remainder by zero (undefined behaviour, no
  ExhaustedBoard condition exists); with at least one open cell the call has
  defined behaviour and returns.
\<close>

theorem place_defined_iff_open:
  assumes "reachable s u" and "0 \<le> rand" and "player = 0 \<or> player = 1"
  shows "if number_of_open_positions s = 0
         then place_piece_randomly rand player s = Inl DivisionByZero
         else \<exists>pos s'. place_piece_randomly rand player s = Inr (pos, s')"
proof (cases "number_of_open_positions s = 0")
  case True
  then show ?thesis by (simp add: place_piece_randomly_def c_mod_def)
next
  case False
  note v = reachable_valid [OF assms(1)]
  from False validD(3) [OF v] have "0 < number_of_open_positions s" by simp
  from place_result(1) [OF v this assms(2,3)] False show ?thesis by simp
qed

theorem place_defined_iff_open_witness:
  "reachable game1_full 0 \<and> reachable game1 0 \<and>
   number_of_open_positions game1_full = 0 \<and> number_of_open_positions game1 \<noteq> 0 \<and>
   place_piece_randomly 7 1 game1_full = Inl DivisionByZero \<and>
   (\<exists>pos s'. place_piece_randomly 7 1 game1 = Inr (pos, s'))"
proof -
  have a: "number_of_open_positions game1_full = 0" by (simp add: game1_full_def)
  have b: "number_of_open_positions game1 \<noteq> 0" by (simp add: game1_def)
  from place_defined_iff_open [OF reachable_game1_full, of 7 1]
       place_defined_iff_open [OF reachable_game1, of 7 1]
  show ?thesis using a b reachable_game1_full reachable_game1 by simp
qed

subsection \<open>C3: \<open>remove_last_n_moves\<close> beyond the history\<close>

text \<open>
  Claim C3 as stated: \<open>remove_last_n_moves n\<close> with \<open>n\<close> greater than the history length
  fails with an InsufficientHistory condition.  The function does not compare \<open>n\<close>
  with the history: on the fresh 2 by 2 board, whose history is empty, a request for
  one move calls \<open>back()\<close> on the empty vector, which C++ leaves undefined.
\<close>

theorem remove_beyond_history_counterexample:
  "HexGame 2 = Inr game2 \<and> moves game2 = [] \<and>
   remove_last_n_moves 1 game2 = Inl BackOfEmpty"
  by (simp add: HexGame_2) code_simp

text \<open>
  C3 (amended): \<open>remove_last_n_moves\<close> performs no check.  On a reachable object, for
  every \<open>n\<close> up to the history length (negative \<open>n\<close> and \<open>n\<close> equal to the length
  included) the call has defined behaviour, returns, and leaves the history without
  its last \<open>n\<close> moves (empty when \<open>n\<close> is the length); for every larger \<open>n\<close> it removes
  the whole history and then calls \<open>back()\<close> on the empty vector (undefined
  behaviour, no InsufficientHistory condition exists).
\<close>

theorem remove_defined_iff_enough:
  assumes "reachable s u"
  shows "if n \<le> int (length (moves s))
         then \<exists>removed s'. remove_last_n_moves n s = Inr (removed, s') \<and>
                moves s' = take (length (moves s) - nat n) (moves s) \<and>
                (if n = int (length (moves s)) then moves s' = [] else True)
         else remove_last_n_moves n s = Inl BackOfEmpty"
proof -
  note v = reachable_valid [OF assms]
  have "nat n \<le> length (moves s) \<longleftrightarrow> n \<le> int (length (moves s))" by linarith
  then show ?thesis unfolding remove_result [OF v, of n] by auto
qed

theorem remove_defined_iff_enough_witness:
  "reachable game2_second 0 \<and> (2::int) \<le> int (length (moves game2_second)) \<and>
   \<not> (3::int) \<le> int (length (moves game2_second)) \<and>
   (\<exists>removed s'. remove_last_n_moves 2 game2_second = Inr (removed, s') \<and> moves s' = []) \<and>
   remove_last_n_moves 3 game2_second = Inl BackOfEmpty"
proof -
  have l: "length (moves game2_second) = 2" by (simp add: game2_second_def)
  from remove_defined_iff_enough [OF reachable_game2_second, of 2]
       remove_defined_iff_enough [OF reachable_game2_second, of 3]
  show ?thesis using reachable_game2_second unfolding l by auto
qed

subsection \<open>C4: the order of the returned moves\<close>

text \<open>
  Claim C4 as stated: the returned sequence lists the removed positions in the order
  they were played, oldest first.  On the 2 by 2 board with history \<open>[0, 3]\<close> the call
  \<open>remove_last_n_moves 2\<close> returns \<open>[3, 0]\<close>: the loop pushes \<open>moves.back()\<close> each time.
\<close>

theorem remove_order_counterexample:
  "moves game2_second = [0, 3] \<and>
   remove_last_n_moves 2 game2_second = Inr ([3, 0], game2_rewound)"
  by (simp add: remove_game2_second) (simp add: game2_second_def)

text \<open>
  C4 (amended): for every \<open>n\<close> up to the history length the returned sequence contains
  exactly the \<open>n\<close> removed logical positions in the reverse of the order they were
  played: the most recently played move first, the oldest of the removed batch last.
\<close>

theorem remove_returns_newest_first:
  assumes "reachable s u" and "n \<le> int (length (moves s))"
  shows "\<exists>s'. remove_last_n_moves n s
           = Inr (rev (drop (length (moves s) - nat n) (moves s)), s')"
proof -
  note v = reachable_valid [OF assms(1)]
  from assms(2) have "nat n \<le> length (moves s)" by linarith
  then show ?thesis unfolding remove_result [OF v, of n] by simp
qed

theorem remove_returns_newest_first_witness:
  "reachable game2_second 0 \<and> (2::int) \<le> int (length (moves game2_second)) \<and>
   (\<exists>s'. remove_last_n_moves 2 game2_second = Inr (rev [0, 3], s'))"
proof -
  have l: "(2::int) \<le> int (length (moves game2_second))" by (simp add: game2_second_def)
  from remove_returns_newest_first [OF reachable_game2_second l]
  show ?thesis using reachable_game2_second l by (simp add: game2_second_def)
qed

subsection \<open>C6: open positions and history\<close>

text \<open>
  Claim C6 as stated: after every call, in any interleaving, the number of open
  positions plus the history length is \<open>N\<^sup>2\<close>.  After two placements on the 2 by 2 board
  and \<open>remove_last_n_moves 2\<close> there are 2 open positions and an empty history.
\<close>

theorem open_plus_history_counterexample:
  "HexGame 2 = Inr game2 \<and>
   place_piece_randomly 0 0 game2 = Inr (5, game2_first) \<and>
   place_piece_randomly 0 1 game2_first = Inr (10, game2_second) \<and>
   remove_last_n_moves 2 game2_second = Inr ([3, 0], game2_rewound) \<and>
   number_of_open_positions game2_rewound + int (length (moves game2_rewound)) = 2 \<and>
   BOARD_DIM game2_rewound * BOARD_DIM game2_rewound = 4"
  by (simp add: HexGame_2 place_game2 place_game2_first remove_game2_second)
     (simp add: game2_rewound_def game2_second_def game2_first_def game2_def)

text \<open>
  C6 (amended): at all times the number of open positions plus the history length
  plus the number of moves \<open>remove_last_n_moves\<close> has removed since the last \<open>init\<close> (or
  the construction) is \<open>N\<^sup>2\<close>: the removed cells are not reopened.  The claimed equation
  holds after construction, after every \<open>init\<close>, and after every
  \<open>place_piece_randomly\<close> and \<open>winner\<close> call as long as no move has been removed since.
\<close>

theorem open_plus_history_plus_removed:
  "reachable s u \<Longrightarrow>
     number_of_open_positions s + int (length (moves s)) + int u = BOARD_DIM s * BOARD_DIM s"
  by (rule reachable_count)

theorem open_plus_history_plus_removed_witness:
  "reachable game2_first 0 \<and>
   number_of_open_positions game2_first + int (length (moves game2_first)) + int 0
     = BOARD_DIM game2_first * BOARD_DIM game2_first"
  using open_plus_history_plus_removed [OF reachable_game2_first] reachable_game2_first
  by simp

subsection \<open>C8: what \<open>remove_last_n_moves\<close> changes\<close>

text \<open>
  C8: for every \<open>n\<close> up to the history length, \<open>remove_last_n_moves n\<close> sets to zero both
  flags of the padded cell of each removed move and leaves every other entry of
  \<open>board\<close> as it was; \<open>open_positions\<close>, \<open>number_of_open_positions\<close> and \<open>connected\<close> are
  unchanged (as are \<open>BOARD_DIM\<close> and \<open>neighbors\<close>); the history loses the removed moves.
\<close>

theorem remove_frame:
  assumes "reachable s u" and "n \<le> int (length (moves s))"
  shows "\<exists>removed s'. remove_last_n_moves n s = Inr (removed, s') \<and>
           set removed = set (drop (length (moves s) - nat n) (moves s)) \<and>
           moves s' = take (length (moves s) - nat n) (moves s) \<and>
           open_positions s' = open_positions s \<and>
           number_of_open_positions s' = number_of_open_positions s \<and>
           connected s' = connected s \<and>
           BOARD_DIM s' = BOARD_DIM s \<and> neighbors s' = neighbors s \<and>
           length (board s') = length (board s) \<and>
           (\<forall>k < length (board s).
              board s' ! k =
                (if \<exists>m \<in> set removed. k = nat (padded_of (BOARD_DIM s) m * 2) \<or>
                                       k = nat (padded_of (BOARD_DIM s) m * 2 + 1)
                 then 0 else board s ! k))"
proof -
  note v = reachable_valid [OF assms(1)]
  from assms(2) have "nat n \<le> length (moves s)" by linarith
  then show ?thesis
    unfolding remove_result [OF v, of n] by (simp add: nth_clear_cells)
qed

theorem remove_frame_witness:
  "reachable game2_second 0 \<and> (1::int) \<le> int (length (moves game2_second)) \<and>
   (\<exists>removed s'. remove_last_n_moves 1 game2_second = Inr (removed, s') \<and>
      set removed = {3} \<and> moves s' = [0] \<and>
      open_positions s' = open_positions game2_second \<and>
      number_of_open_positions s' = number_of_open_positions game2_second \<and>
      connected s' = connected game2_second \<and>
      board s' ! 20 = 0 \<and> board s' ! 21 = 0 \<and> board s' ! 10 = board game2_second ! 10)"
proof -
  have l: "(1::int) \<le> int (length (moves game2_second))" by (simp add: game2_second_def)
  have m: "moves game2_second = [0, 3]" "BOARD_DIM game2_second = 2"
    "length (board game2_second) = 32"
    by (simp_all add: game2_second_def game2_first_def game2_def)
  have p: "padded_of 2 3 = 10" by (simp add: padded_of_def)
  from remove_frame [OF reachable_game2_second l]
  obtain removed s' where r: "remove_last_n_moves 1 game2_second = Inr (removed, s')"
    "set removed = {3}" "moves s' = [0]"
    "open_positions s' = open_positions game2_second"
    "number_of_open_positions s' = number_of_open_positions game2_second"
    "connected s' = connected game2_second"
    and b: "\<forall>k < 32. board s' ! k =
                (if \<exists>m \<in> set removed. k = nat (padded_of 2 m * 2) \<or> k = nat (padded_of 2 m * 2 + 1)
                 then 0 else board game2_second ! k)"
    unfolding m by auto
  from b r(2) have "board s' ! 20 = 0" "board s' ! 21 = 0" "board s' ! 10 = board game2_second ! 10"
    by (simp_all add: p)
  with r reachable_game2_second l show ?thesis by blast
qed

subsection \<open>C7: connectivity marks are never cleared within a game\<close>

text \<open>
  C7: along every sequence of \<open>place_piece_randomly\<close>, \<open>winner\<close> and
  \<open>remove_last_n_moves\<close> calls that starts in a reachable object (no \<open>init\<close> in
  between), \<open>connected\<close> keeps its size and every mark that is true stays true.
  Consequently the win condition of either player (a true mark on a cell of the goal
  edge, which is what makes \<open>winner\<close> return 1) stays true once it is true, and it
  is true in the object \<open>winner\<close> leaves whenever \<open>winner\<close> returns a nonzero value.
\<close>

theorem marks_never_cleared:
  assumes "reachable s u" and "game_step\<^sup>*\<^sup>* s s'"
  shows "length (connected s') = length (connected s) \<and>
         (\<forall>i < length (connected s). connected s ! i \<noteq> 0 \<longrightarrow> connected s' ! i \<noteq> 0) \<and>
         (\<forall>player \<in> {0, 1}.
            (won player s \<longrightarrow> won player s') \<and>
            (\<forall>position r t. winner player position s' = Inr (r, t) \<longrightarrow> r \<noteq> 0 \<longrightarrow> won player t))"
proof -
  note v = reachable_valid [OF assms(1)]
  from game_steps_reachable [OF assms(2,1)] obtain u' where "reachable s' u'" ..
  note v' = reachable_valid [OF this]
  have "won player s'" if "player \<in> {0, 1}" "won player s" for player
    using won_persists [OF assms(2) v that(2)] that(1) by simp
  moreover have "won player t"
    if "player \<in> {0, 1}" "winner player position s' = Inr (r, t)" "r \<noteq> 0" for player position r t
    using winner_reports_won [OF v' _ that(2,3)] that(1) by simp
  ultimately show ?thesis using game_steps_marks [OF assms(2)] by blast
qed

theorem marks_never_cleared_witness:
  "reachable game2_first 0 \<and> game_step\<^sup>*\<^sup>* game2_first game2_column \<and>
   connected game2_first ! 0 \<noteq> 0 \<and> connected game2_column ! 0 \<noteq> 0 \<and>
   winner 0 9 game2_column = Inr (1, game2_won) \<and> won 0 game2_won \<and>
   reachable game2_won 0 \<and> game_step\<^sup>*\<^sup>* game2_won game2_won_rewound \<and>
   won 0 game2_won_rewound"
proof -
  have s1: "game_step game2_first game2_first_marked"
    by (rule game_step.check [OF _ winner_game2_first]) simp
  have s2: "game_step game2_first_marked game2_column"
    by (rule game_step.place [OF _ _ place_game2_first_marked]) simp_all
  have st: "game_step\<^sup>*\<^sup>* game2_first game2_column" using s1 s2 by auto
  have s3: "game_step game2_won game2_won_rewound"
    by (rule game_step.undo [OF remove_game2_won])
  then have st': "game_step\<^sup>*\<^sup>* game2_won game2_won_rewound" by auto
  have l: "0 < length (connected game2_first)" "connected game2_first ! 0 \<noteq> 0"
    by (simp_all add: game2_first_def game2_def)
  from marks_never_cleared [OF reachable_game2_first st] l winner_game2_column
  have a: "connected game2_column ! 0 \<noteq> 0" and w: "won 0 game2_won" by auto
  from marks_never_cleared [OF reachable_game2_won st'] w
  have "won 0 game2_won_rewound" by auto
  with a w l st st' reachable_game2_first reachable_game2_won winner_game2_column
  show ?thesis by simp
qed

subsection \<open>C10: what \<open>winner\<close> changes\<close>

text \<open>
  C10: a call of \<open>winner\<close> for player 0 or 1 on a reachable object leaves \<open>board\<close>,
  \<open>moves\<close>, \<open>open_positions\<close> and \<open>number_of_open_positions\<close> (and \<open>BOARD_DIM\<close>,
  \<open>neighbors\<close>) unchanged; \<open>connected\<close> keeps its size, and each entry that changes
  was 0, is now 1 and is an entry of the given player (index of the player's
  parity).  When none of the six neighbours of the position carries a true mark of
  the player, the call returns 0 and the object is unchanged.
\<close>

theorem winner_frame:
  assumes "reachable s u" and "player = 0 \<or> player = 1"
    and "winner player position s = Inr (r, s')"
  shows "board s' = board s \<and> moves s' = moves s \<and>
         open_positions s' = open_positions s \<and>
         number_of_open_positions s' = number_of_open_positions s \<and>
         BOARD_DIM s' = BOARD_DIM s \<and> neighbors s' = neighbors s \<and>
         length (connected s') = length (connected s) \<and>
         (\<forall>i < length (connected s).
            connected s' ! i \<noteq> connected s ! i \<longrightarrow>
              connected s ! i = 0 \<and> connected s' ! i = 1 \<and> int i mod 2 = player) \<and>
         ((\<forall>d \<in> set (neighbors s). connected s ! nat ((position + d) * 2 + player) = 0)
            \<longrightarrow> r = 0 \<and> s' = s)"
proof -
  from winner_only_marks [OF assms(3)] have m: "only_marks player s s'" by simp
  note d = only_marksD [OF m]
  have ch: "connected s ! i = 0 \<and> connected s' ! i = 1 \<and> int i mod 2 = player"
    if i: "i < length (connected s)" and ne: "connected s' ! i \<noteq> connected s ! i" for i
  proof -
    from d(8) [OF i] ne obtain c where c: "connected s' ! i = 1" "int i = c * 2 + player"
      by auto
    have "connected s ! i \<in> set (connected s)" using i by simp
    from reachable_marks_01 [OF assms(1) this] ne c(1) have "connected s ! i = 0" by auto
    moreover from c(2) assms(2) have "int i mod 2 = player" by auto
    ultimately show ?thesis using c(1) by simp
  qed
  have nm: "r = 0 \<and> s' = s"
    if z: "\<forall>d \<in> set (neighbors s). connected s ! nat ((position + d) * 2 + player) = 0"
  proof (rule winner_loop_no_mark [OF assms(3) [unfolded winner_def]])
    fix i d assume "at (neighbors s) i = Inr d"
    then have "d \<in> set (neighbors s)" by (auto simp: at_eq_Inr)
    with z show "connected s ! nat ((position + d) * 2 + player) = 0" by blast
  qed
  from d(1-7) ch nm show ?thesis by blast
qed

theorem winner_frame_witness:
  "reachable game2_first 0 \<and> winner 0 5 game2_first = Inr (0, game2_first_marked) \<and>
   board game2_first_marked = board game2_first \<and>
   connected game2_first_marked ! 10 \<noteq> connected game2_first ! 10 \<and>
   connected game2_first ! 10 = 0 \<and> connected game2_first_marked ! 10 = 1 \<and>
   reachable game2_second 0 \<and> winner 1 10 game2_second = Inr (0, game2_second) \<and>
   map (\<lambda>d. connected game2_second ! nat ((10 + d) * 2 + 1)) (neighbors game2_second)
     = [0, 0, 0, 0, 0, 0]"
proof -
  have m: "map (\<lambda>d. connected game2_second ! nat ((10 + d) * 2 + 1)) (neighbors game2_second)
     = [0, 0, 0, 0, 0, 0]"
    by (simp add: game2_second_def game2_first_def game2_def)
  have z: "\<forall>d \<in> set (neighbors game2_second). connected game2_second ! nat ((10 + d) * 2 + 1) = 0"
    by (simp add: game2_second_def game2_first_def game2_def)
  have l: "10 < length (connected game2_first)" by (simp add: game2_first_def game2_def)
  have ne: "connected game2_first_marked ! 10 \<noteq> connected game2_first ! 10"
    by (simp add: game2_first_marked_def game2_first_def game2_def)
  from winner_frame [OF reachable_game2_first _ winner_game2_first] l ne
  have a: "board game2_first_marked = board game2_first \<and>
    connected game2_first ! 10 = 0 \<and> connected game2_first_marked ! 10 = 1" by simp
  from winner_frame [OF reachable_game2_second _ winner_game2_second] z
  have "(0::int) = 0 \<and> game2_second = game2_second" by simp
  with a m ne reachable_game2_first reachable_game2_second winner_game2_first winner_game2_second
  show ?thesis by simp
qed


subsection \<open>C9: the exported cell vector\<close>

text \<open>
  C9: on every reachable object \<open>board_to_coord\<close> returns a vector of length \<open>N\<^sup>2\<close>
  whose entry \<open>i * N + j\<close> is the value of the cell in row \<open>i\<close> and column \<open>j\<close> of
  the logical board (row-major order); every entry is \<open>- 1\<close>, 0 or 1; and the number
  of nonzero entries is the number of moves played, that is, the length of the move
  history (moves removed by \<open>remove_last_n_moves\<close> are no longer on the board nor in
  the history).
\<close>

theorem board_to_coord_vector:
  assumes "reachable s u"
  shows "\<exists>v. board_to_coord s = Inr v \<and>
           int (length v) = BOARD_DIM s * BOARD_DIM s \<and>
           (\<forall>i j. 0 \<le> i \<and> i < BOARD_DIM s \<and> 0 \<le> j \<and> j < BOARD_DIM s \<longrightarrow>
              v ! nat (i * BOARD_DIM s + j) = cell_value s ((i + 1) * (BOARD_DIM s + 2) + j + 1)) \<and>
           (\<forall>x \<in> set v. x = - 1 \<or> x = 0 \<or> x = 1) \<and>
           length (filter (\<lambda>x. x \<noteq> 0) v) = length (moves s)"
proof -
  note v = reachable_valid [OF assms]
  note vd = validD [OF v]
  define n where "n = nat (BOARD_DIM s)"
  have N: "BOARD_DIM s = int n" using vd(2) by (simp add: n_def)
  let ?cells = "List.product [0 ..< n] [0 ..< n]"
  let ?g = "\<lambda>(i, j). cell_value s ((int i + 1) * (BOARD_DIM s + 2) + int j + 1)"
  define w where "w = map ?g ?cells"
  have run: "board_to_coord s = Inr w"
    unfolding w_def n_def by (rule board_to_coord_result [OF vd(1)])
  have len: "int (length w) = BOARD_DIM s * BOARD_DIM s"
    by (simp add: w_def N)
  have nth: "w ! nat (i * BOARD_DIM s + j) = cell_value s ((i + 1) * (BOARD_DIM s + 2) + j + 1)"
    if ij: "0 \<le> i" "i < BOARD_DIM s" "0 \<le> j" "j < BOARD_DIM s" for i j
  proof -
    define a where "a = nat i"
    define b where "b = nat j"
    have ab: "i = int a" "j = int b" "a < n" "b < n" using ij by (simp_all add: a_def b_def N)
    have "int a * BOARD_DIM s + int b = int (a * n + b)" by (simp add: N)
    then have k: "nat (int a * BOARD_DIM s + int b) = a * n + b" by (simp only: nat_int)
    have "a * n \<le> (n - 1) * n" using ab by (intro mult_right_mono) auto
    then have "a * n + b < (n - 1) * n + n" using ab by linarith
    also have "\<dots> = n * n" using ab by (cases n) simp_all
    finally have kl: "a * n + b < n * n" .
    have dm: "(a * n + b) div n = a" "(a * n + b) mod n = b"
      using ab(4) by (rule div_mod_decomp)+
    have "?cells ! (a * n + b) = (a, b)"
      using kl ab by (simp add: product_nth dm)
    then have "w ! (a * n + b) = ?g (a, b)" using kl by (simp add: w_def)
    then show ?thesis unfolding ab(1,2) k by simp
  qed
  have rng: "x = - 1 \<or> x = 0 \<or> x = 1" if "x \<in> set w" for x
    using that cell_value_range unfolding w_def by auto
  have cnt: "length (filter (\<lambda>x. x \<noteq> 0) w) = length (moves s)"
    unfolding w_def n_def by (rule board_to_coord_count [OF v])
  from run len nth rng cnt show ?thesis by blast
qed

theorem board_to_coord_vector_witness:
  "reachable game2_second 0 \<and> board_to_coord game2_second = Inr [1, 0, 0, - 1] \<and>
   int (length [1, 0, 0, - 1 :: int]) = BOARD_DIM game2_second * BOARD_DIM game2_second \<and>
   length (filter (\<lambda>x. x \<noteq> 0) [1, 0, 0, - 1 :: int]) = length (moves game2_second)"
proof -
  have e: "board_to_coord game2_second = Inr [1, 0, 0, - 1]" by code_simp
  from board_to_coord_vector [OF reachable_game2_second] e reachable_game2_second
  show ?thesis by auto
qed


subsection \<open>C1: \<open>winner\<close> against the reference flood fill\<close>

text \<open>
  Claim C1 as stated: on every reachable object, for either player and the padded
  position at which that player's stone was just placed, \<open>winner\<close> returns 1 exactly
  when the placement completes a path of the player's stones joining the player's
  two edges, in agreement with a fresh flood fill over the whole board.  On objects
  that calls of the engine reach this fails in both directions.  On the 2 by 2 board,
  when player 0 is placed on cell 5 and \<open>winner\<close> is not called, and player 0 is then
  placed on cell 9, the two stones join the edges and the flood fill reaches the goal
  edge, but cell 5 carries no mark and \<open>winner\<close> returns 0.  When player 0 is placed on
  cell 5, \<open>winner\<close> marks it, \<open>remove_last_n_moves\<close> removes the move (the mark stays)
  and player 0 is then placed on cell 9, \<open>winner\<close> returns 1 on the mark of the empty
  cell 5, though the only stone of the board joins nothing.
\<close>

theorem winner_on_stale_marks_counterexample:
  "reachable game2_first 0 \<and>
   place_piece_randomly 2 0 game2_first = Inr (9, game2_unchecked) \<and>
   winner 0 9 game2_unchecked = Inr (0, game2_unchecked) \<and>
   reference_win 0 game2_unchecked \<and> path_connects 0 game2_unchecked \<and>
   reachable game2_marked_rewound 1 \<and>
   place_piece_randomly 2 0 game2_marked_rewound = Inr (9, game2_stale) \<and>
   winner 0 9 game2_stale = Inr (1, game2_stale_won) \<and>
   \<not> reference_win 0 game2_stale \<and> \<not> path_connects 0 game2_stale"
proof -
  have u: "1 \<le> BOARD_DIM game2_unchecked"
    by (simp add: game2_unchecked_def game2_first_def game2_def)
  have s: "1 \<le> BOARD_DIM game2_stale"
    by (simp add: game2_stale_def game2_marked_rewound_def game2_first_marked_def
        game2_first_def game2_def)
  have "path_connects 0 game2_unchecked"
    using reference_game2_unchecked unfolding reference_win_path [OF u] .
  moreover have "\<not> path_connects 0 game2_stale"
    using reference_game2_stale unfolding reference_win_path [OF s] .
  ultimately show ?thesis
    using reachable_game2_first place_game2_unchecked winner_game2_unchecked
      reference_game2_unchecked reachable_game2_marked_rewound place_game2_marked_rewound
      winner_game2_stale reference_game2_stale
    by simp
qed

text \<open>
  C1 (amended): in every game in progress, that is, on an object constructed or reset
  by \<open>init\<close> on which every stone has since been placed by \<open>place_piece_randomly\<close> and
  followed by the call of \<open>winner\<close> for it, none of which has reported a win (so no
  placement without its call of \<open>winner\<close>, no play after \<open>remove_last_n_moves\<close> and no
  play after a win), for either player, when \<open>place_piece_randomly\<close> has just placed
  that player's stone and returned its padded position, \<open>winner\<close> at that position has
  defined behaviour, returns 0 or 1, and returns 1 exactly when the reference flood
  fill over the whole board reaches the player's goal edge from the start edge,
  which is exactly when a path of the player's stones joins the two edges; no such
  path existed before the placement, so that 1 is returned exactly when the placement
  completes one.  When none of the six neighbours of the position carries a true
  connectivity mark of the player, \<open>winner\<close> returns 0 and leaves the object as it is:
  no cell is marked.
\<close>

theorem winner_agrees_with_reference:
  assumes "in_play s" and "player = 0 \<or> player = 1" and "0 \<le> rand"
    and "place_piece_randomly rand player s = Inr (position, s1)"
  shows "\<exists>r s2. winner player position s1 = Inr (r, s2) \<and> (r = 0 \<or> r = 1) \<and>
           (r = 1 \<longleftrightarrow> reference_win player s1) \<and>
           (r = 1 \<longleftrightarrow> path_connects player s1) \<and> \<not> path_connects player s \<and>
           ((\<forall>d \<in> set (neighbors s1). connected s1 ! nat ((position + d) * 2 + player) = 0)
              \<longrightarrow> r = 0 \<and> s2 = s1)"
proof -
  from in_play_exact [OF assms(1)] assms(2)
  have v: "valid s" and e: "exact_marks player s" and np: "\<not> path_connects player s"
    by auto
  from move_exact [OF v e np assms(2,3,4)]
  obtain r s2 where w: "winner player position s1 = Inr (r, s2)"
    and r: "r = 0 \<or> r = 1" and a: "r \<noteq> 0 \<longleftrightarrow> path_connects player s1"
    by blast
  have nm: "r = 0 \<and> s2 = s1"
    if z: "\<forall>d \<in> set (neighbors s1). connected s1 ! nat ((position + d) * 2 + player) = 0"
  proof (rule winner_loop_no_mark [OF w [unfolded winner_def]])
    fix i d assume "at (neighbors s1) i = Inr d"
    then have "d \<in> set (neighbors s1)" by (auto simp: at_eq_Inr)
    with z show "connected s1 ! nat ((position + d) * 2 + player) = 0" by blast
  qed
  from r a have p: "r = 1 \<longleftrightarrow> path_connects player s1" by auto
  note n1 = validD(2) [OF valid_place [OF v assms(3,2,4)]]
  from p have f: "r = 1 \<longleftrightarrow> reference_win player s1"
    unfolding reference_win_path [OF n1] .
  from w r f p np nm show ?thesis by blast
qed

theorem winner_agrees_with_reference_witness:
  "in_play game2_first_marked \<and>
   place_piece_randomly 2 0 game2_first_marked = Inr (9, game2_column) \<and>
   winner 0 9 game2_column = Inr (1, game2_won) \<and>
   reference_win 0 game2_column \<and> path_connects 0 game2_column \<and>
   \<not> path_connects 0 game2_first_marked"
  using winner_agrees_with_reference [OF in_play_game2_first_marked _ _ place_game2_first_marked]
    in_play_game2_first_marked place_game2_first_marked winner_game2_column
  by simp

end
